theory Spec2Isabelle
  imports Main "HOL-Library.Sublist"
begin

section \<open>Strings\<close>

text \<open>
  A JavaScript string is modelled as a \<^typ>\<open>string\<close>, one \<^typ>\<open>char\<close> per code unit: the
  model covers the strings whose code units are below 256 (Latin-1). A code unit as a
  number is \<open>of_char c\<close>.
\<close>

text \<open>
  The white space and line terminators that \<^verbatim>\<open>trim\<close> removes, among the code units
  below 256: tab, line feed, vertical tab, form feed, carriage return, space and the
  no-break space U+00A0.
\<close>

definition isWhiteSpace :: "char \<Rightarrow> bool" where
  "isWhiteSpace c =
     (c = CHR '' '' \<or> c = CHR 0x09 \<or> c = CHR 0x0A \<or> c = CHR 0x0B \<or> c = CHR 0x0C \<or> c = CHR 0x0D \<or>
      c = CHR 0xA0)"

text \<open>\<^verbatim>\<open>s.trim()\<close>\<close>

definition trim :: "string \<Rightarrow> string" where
  "trim s = rev (dropWhile isWhiteSpace (rev (dropWhile isWhiteSpace s)))"

text \<open>
  The result of \<^verbatim>\<open>toUpperCase\<close> is a list of code units as numbers, since the upper
  case of two Latin-1 letters lies above 255. Of the code units below 256 the Unicode
  mapping changes \<open>a\<close>..\<open>z\<close> and U+00E0..U+00FE without the division sign U+00F7 (to the
  code unit 32 below), the sharp s U+00DF (to \<open>SS\<close>), the micro sign U+00B5 (to U+039C)
  and U+00FF (to U+0178).
\<close>

definition codeUnits :: "string \<Rightarrow> nat list" where
  "codeUnits s = map of_char s"

definition upperChar :: "char \<Rightarrow> nat list" where
  "upperChar c =
     (let n = of_char c
      in if (0x61 \<le> n \<and> n \<le> 0x7A) \<or> (0xE0 \<le> n \<and> n \<le> 0xFE \<and> n \<noteq> 0xF7) then [n - 0x20]
         else if n = 0xDF then [0x53, 0x53]
         else if n = 0xB5 then [0x39C]
         else if n = 0xFF then [0x178]
         else [n])"

text \<open>\<^verbatim>\<open>s.toUpperCase()\<close>\<close>

definition toUpperCase :: "string \<Rightarrow> nat list" where
  "toUpperCase s = concat (map upperChar s)"

text \<open>
  \<^verbatim>\<open>s.indexOf(t, from)\<close>: the first position at or after \<open>from\<close> where \<open>t\<close> starts,
  \<open>None\<close> for JavaScript's \<open>-1\<close>. The helper scans the rest of the string and counts
  positions in \<open>i\<close>.
\<close>

fun indexOfScan :: "string \<Rightarrow> string \<Rightarrow> nat \<Rightarrow> nat option" where
  "indexOfScan t [] i = (if t = [] then Some i else None)"
| "indexOfScan t (c # cs) i = (if prefix t (c # cs) then Some i else indexOfScan t cs (Suc i))"

definition indexOf :: "string \<Rightarrow> string \<Rightarrow> nat \<Rightarrow> nat option" where
  "indexOf s t from = (let f = min from (length s) in indexOfScan t (drop f s) f)"

text \<open>\<^verbatim>\<open>s.includes(t)\<close>\<close>

definition includesStr :: "string \<Rightarrow> string \<Rightarrow> bool" where
  "includesStr s t = (indexOf s t 0 \<noteq> None)"

section \<open>The document snapshot\<close>

text \<open>
  The part of \<^verbatim>\<open>docs_v1.Schema$Document\<close> that the pipeline reads. Every field the
  TypeScript type marks optional is an \<open>option\<close>. \<open>tr_bold\<close> is
  \<^verbatim>\<open>textRun.textStyle.bold\<close>; \<open>body_content\<close> is \<^verbatim>\<open>doc.body?.content\<close>.
\<close>

record TextRun =
  tr_content :: "string option"
  tr_bold :: bool

record ParagraphElement =
  pe_startIndex :: "nat option"
  pe_endIndex :: "nat option"
  pe_textRun :: "TextRun option"

record Paragraph =
  elements :: "ParagraphElement list option"

record StructuralElement =
  startIndex :: "nat option"
  endIndex :: "nat option"
  se_paragraph :: "Paragraph option"

record Document =
  body_content :: "StructuralElement list option"

text \<open>\<^verbatim>\<open>el.textRun?.content\<close>, with the empty string for a missing or empty content.\<close>

definition runContent :: "ParagraphElement \<Rightarrow> string" where
  "runContent el =
     (case pe_textRun el of
        None \<Rightarrow> []
      | Some tr \<Rightarrow> (case tr_content tr of None \<Rightarrow> [] | Some c \<Rightarrow> c))"

text \<open>\<^verbatim>\<open>item.paragraph?.elements\<close>\<close>

definition paragraphElements :: "StructuralElement \<Rightarrow> ParagraphElement list option" where
  "paragraphElements item = (case se_paragraph item of None \<Rightarrow> None | Some p \<Rightarrow> elements p)"

definition getParagraphText :: "StructuralElement \<Rightarrow> string" where
  "getParagraphText item =
     (case paragraphElements item of
        None \<Rightarrow> []
      | Some els \<Rightarrow> concat (map runContent els))"

text \<open>The text a block is compared by: \<^verbatim>\<open>getParagraphText(item).trim().toUpperCase()\<close>.\<close>

definition lineText :: "StructuralElement \<Rightarrow> nat list" where
  "lineText item = toUpperCase (trim (getParagraphText item))"

section \<open>Edit requests and the remote store\<close>

text \<open>
  The three request shapes the pipeline sends. \<open>ReplaceAllText t r\<close> is
  \<^verbatim>\<open>replaceAllText\<close> with \<^verbatim>\<open>matchCase: true\<close>, \<open>DeleteContentRange s e\<close> is
  \<^verbatim>\<open>deleteContentRange\<close>, \<open>UpdateTextStyle s e\<close> is \<^verbatim>\<open>updateTextStyle\<close> with
  \<^verbatim>\<open>textStyle: {bold: true}, fields: "bold"\<close>.
\<close>

datatype request =
    ReplaceAllText string string
  | DeleteContentRange nat nat
  | UpdateTextStyle nat nat

text \<open>
  The remote store is a collaborator: the pipeline is written against its two calls.
  \<open>documents_get\<close> reads the snapshot of a store state; \<open>documents_batchUpdate\<close>
  applies a batch and gives the new state, or \<open>None\<close> when the call throws (the state is
  then unchanged: a batch is one transaction).
\<close>

record 's docs_api =
  documents_get :: "'s \<Rightarrow> Document"
  documents_batchUpdate :: "request list \<Rightarrow> 's \<Rightarrow> 's option"

text \<open>
  What a run has done so far: the store, and the batches in the order they were sent.
  \<open>Sent\<close> is a batch the store applied; \<open>Warned\<close> is a batch that failed inside a
  \<^verbatim>\<open>try\<close> block, whose \<^verbatim>\<open>catch\<close> calls \<^verbatim>\<open>logger.warn\<close> and goes on.
\<close>

datatype event = Sent "request list" | Warned "request list"

record 's run =
  store :: "'s"
  trace :: "event list"

text \<open>
  An exception that leaves a stage: a \<^verbatim>\<open>batchUpdate\<close> that throws outside any
  \<^verbatim>\<open>try\<close> block, or a \<^verbatim>\<open>TypeError\<close>.
\<close>

datatype failure = BatchUpdateError "request list" | TypeError

text \<open>\<^verbatim>\<open>await docs.documents.batchUpdate(...)\<close> outside a \<^verbatim>\<open>try\<close> block.\<close>

definition sendBatch :: "'s docs_api \<Rightarrow> request list \<Rightarrow> 's run \<Rightarrow> failure + 's run" where
  "sendBatch api reqs r =
     (case documents_batchUpdate api reqs (store r) of
        None \<Rightarrow> Inl (BatchUpdateError reqs)
      | Some s' \<Rightarrow> Inr (r\<lparr>store := s', trace := trace r @ [Sent reqs]\<rparr>))"

text \<open>The same call inside \<^verbatim>\<open>try { ... } catch (err) { logger.warn(...) }\<close>.\<close>

definition tryBatch :: "'s docs_api \<Rightarrow> request list \<Rightarrow> 's run \<Rightarrow> 's run" where
  "tryBatch api reqs r =
     (case documents_batchUpdate api reqs (store r) of
        None \<Rightarrow> r\<lparr>trace := trace r @ [Warned reqs]\<rparr>
      | Some s' \<Rightarrow> r\<lparr>store := s', trace := trace r @ [Sent reqs]\<rparr>)"

section \<open>Section headings\<close>

record ExperienceEntry =
  company :: string
  companyLocation :: string
  exp_date :: string
  position :: string
  exp_points :: "string list"

record ProjectEntry =
  proj_name :: string
  proj_points :: "string list"

record EducationEntry =
  institution :: string
  degree :: string
  edu_date :: string

record ResumeData =
  experience :: "ExperienceEntry list"
  projects :: "ProjectEntry list"
  education :: "EducationEntry list"
  languageSkills :: string
  technicalSkills :: string

text \<open>
  \<^verbatim>\<open>RESUME_SECTIONS\<close>, in the order \<^verbatim>\<open>Object.values\<close> lists it: the heading and the
  \<^verbatim>\<open>dataCheck\<close> of each section. \<open>languageSkills\<close> and \<open>technicalSkills\<close> are the
  \<^verbatim>\<open>content\<close> fields of the two skills records; \<^verbatim>\<open>basicInfo\<close> is read by no check.
\<close>

definition RESUME_SECTIONS :: "(string \<times> (ResumeData \<Rightarrow> bool)) list" where
  "RESUME_SECTIONS =
     [(''EXPERIENCE'', \<lambda>d. length (experience d) > 0),
      (''PROJECTS'', \<lambda>d. length (projects d) > 0),
      (''EDUCATION'', \<lambda>d. length (education d) > 0),
      (''LANGUAGE SKILLS'', \<lambda>d. trim (languageSkills d) \<noteq> []),
      (''TECHNICAL SKILLS'', \<lambda>d. trim (technicalSkills d) \<noteq> [])]"

definition getAllHeadings :: "string list" where
  "getAllHeadings = map fst RESUME_SECTIONS"

definition buildHeadingsListFromData :: "ResumeData \<Rightarrow> string list" where
  "buildHeadingsListFromData d = map fst (filter (\<lambda>section. snd section d) RESUME_SECTIONS)"

section \<open>SectionPruner\<close>

text \<open>
  A \<^verbatim>\<open>for\<close> loop that returns the first index whose element passes a test; \<open>i\<close> is the
  index of the head of the list.
\<close>

fun firstIndexFrom :: "('a \<Rightarrow> bool) \<Rightarrow> 'a list \<Rightarrow> nat \<Rightarrow> nat option" where
  "firstIndexFrom P [] i = None"
| "firstIndexFrom P (x # xs) i = (if P x then Some i else firstIndexFrom P xs (Suc i))"

text \<open>The test of the second loop of \<^verbatim>\<open>removeSection\<close>: another declared heading.\<close>

definition isOtherHeading :: "string \<Rightarrow> StructuralElement \<Rightarrow> bool" where
  "isOtherHeading heading item =
     (lineText item \<in> set (map codeUnits getAllHeadings) \<and> lineText item \<noteq> toUpperCase heading)"

text \<open>Why \<^verbatim>\<open>removeSection\<close> returns without sending anything.\<close>

datatype skip = NoContent | HeadingNotFound | InvalidRange

text \<open>
  \<^verbatim>\<open>!item?.startIndex\<close> is true for a missing index and for the index 0. The function
  gives the index that passes the check.
\<close>

definition truthyIndex :: "nat option \<Rightarrow> nat option" where
  "truthyIndex i = (case i of None \<Rightarrow> None | Some n \<Rightarrow> if n = 0 then None else Some n)"

text \<open>
  \<^verbatim>\<open>removeSection\<close> between its \<^verbatim>\<open>get\<close> and its \<^verbatim>\<open>batchUpdate\<close>: the two scans and
  the range check, giving the block indices and the range to delete.
\<close>

definition sectionStart :: "StructuralElement list \<Rightarrow> string \<Rightarrow> nat option" where
  "sectionStart content heading =
     firstIndexFrom (\<lambda>item. lineText item = toUpperCase heading) content 0"

definition sectionEnd :: "StructuralElement list \<Rightarrow> string \<Rightarrow> nat \<Rightarrow> nat" where
  "sectionEnd content heading startIdx =
     (case firstIndexFrom (isOtherHeading heading) (drop (startIdx + 1) content) (startIdx + 1) of
        None \<Rightarrow> length content - 1
      | Some j \<Rightarrow> j - 1)"

definition removeSectionRequests :: "Document \<Rightarrow> string \<Rightarrow> skip + request list" where
  "removeSectionRequests doc heading =
     (case body_content doc of
        None \<Rightarrow> Inl NoContent
      | Some content \<Rightarrow>
          (case sectionStart content heading of
             None \<Rightarrow> Inl HeadingNotFound
           | Some startIdx \<Rightarrow>
               (let endIdx = sectionEnd content heading startIdx;
                    startItem = content ! startIdx;
                    endItem = content ! endIdx
                in case (truthyIndex (startIndex startItem), truthyIndex (endIndex endItem)) of
                     (Some s, Some e) \<Rightarrow> Inr [DeleteContentRange s e]
                   | _ \<Rightarrow> Inl InvalidRange)))"

definition removeSection :: "'s docs_api \<Rightarrow> string \<Rightarrow> 's run \<Rightarrow> 's run" where
  "removeSection api heading r =
     (case removeSectionRequests (documents_get api (store r)) heading of
        Inl _ \<Rightarrow> r
      | Inr reqs \<Rightarrow> tryBatch api reqs r)"

fun removeSections :: "'s docs_api \<Rightarrow> string list \<Rightarrow> 's run \<Rightarrow> 's run" where
  "removeSections api [] r = r"
| "removeSections api (h # hs) r = removeSections api hs (removeSection api h r)"

definition removeEmptySections :: "'s docs_api \<Rightarrow> ResumeData \<Rightarrow> 's run \<Rightarrow> 's run" where
  "removeEmptySections api d r =
     removeSections api (map fst (filter (\<lambda>section. \<not> snd section d) RESUME_SECTIONS)) r"


text \<open>
  The blocks of the section that the heading block \<open>y\<close> opens, as the pruner delimits a
  section: from \<open>y\<close> to the block before the next other declared heading.
\<close>

definition inSection :: "StructuralElement list \<Rightarrow> string \<Rightarrow> nat \<Rightarrow> nat \<Rightarrow> bool" where
  "inSection content h y k =
     (y < length content \<and> lineText (content ! y) = toUpperCase h \<and>
      y \<le> k \<and> k \<le> sectionEnd content h y)"

text \<open>
  The offsets of a snapshot are ordered: a block that comes earlier ends at or before the
  start of every later block (for the blocks that carry the offsets).
\<close>

fun orderedPairs :: "'a list \<Rightarrow> ('a \<times> 'a) list" where
  "orderedPairs [] = []"
| "orderedPairs (x # xs) = map (Pair x) xs @ orderedPairs xs"

definition endsBefore :: "StructuralElement \<Rightarrow> StructuralElement \<Rightarrow> bool" where
  "endsBefore x y =
     (case (endIndex x, startIndex y) of (Some e, Some s) \<Rightarrow> e \<le> s | _ \<Rightarrow> True)"

definition offsetsOrdered :: "StructuralElement list \<Rightarrow> bool" where
  "offsetsOrdered content = list_all (\<lambda>(x, y). endsBefore x y) (orderedPairs content)"

text \<open>The characters of a block lie outside the range \<open>[a, b)\<close>.\<close>

definition outsideRange :: "nat \<Rightarrow> nat \<Rightarrow> StructuralElement \<Rightarrow> bool" where
  "outsideRange a b item =
     (case (startIndex item, endIndex item) of
        (Some u, Some v) \<Rightarrow> v \<le> a \<or> b \<le> u
      | _ \<Rightarrow> True)"

text \<open>Blocks for examples: a paragraph of one text run that starts at an offset.\<close>

definition textParagraph :: "nat \<Rightarrow> string \<Rightarrow> StructuralElement" where
  "textParagraph s txt =
     \<lparr>startIndex = Some s, endIndex = Some (s + length txt),
      se_paragraph = Some \<lparr>elements = Some
        [\<lparr>pe_startIndex = Some s, pe_endIndex = Some (s + length txt),
          pe_textRun = Some \<lparr>tr_content = Some txt, tr_bold = False\<rparr>\<rparr>]\<rparr>\<rparr>"

definition headingWithoutStart :: "StructuralElement list" where
  "headingWithoutStart =
     [(textParagraph 1 ''PROJECTS\<newline>'')\<lparr>startIndex := None\<rparr>, textParagraph 10 ''Demo\<newline>'']"

section \<open>EmptyLineSweeper\<close>

text \<open>
  The candidates of \<^verbatim>\<open>removeEmptyBarLinesOneByOne\<close>: the range of every block that has
  \<^verbatim>\<open>paragraph.elements\<close> and both offsets.
\<close>

definition paragraphRange :: "StructuralElement \<Rightarrow> (nat \<times> nat) option" where
  "paragraphRange item =
     (case (paragraphElements item, startIndex item, endIndex item) of
        (Some _, Some s, Some e) \<Rightarrow> Some (s, e)
      | _ \<Rightarrow> None)"

definition collectParagraphs :: "StructuralElement list \<Rightarrow> (nat \<times> nat) list" where
  "collectParagraphs content = List.map_filter paragraphRange content"

text \<open>
  \<^verbatim>\<open>paragraphs.sort((a, b) => b.startIndex - a.startIndex)\<close>: a stable sort, the greatest
  start first.
\<close>

fun insertDesc :: "nat \<times> nat \<Rightarrow> (nat \<times> nat) list \<Rightarrow> (nat \<times> nat) list" where
  "insertDesc p [] = [p]"
| "insertDesc p (q # qs) = (if fst q \<le> fst p then p # q # qs else q # insertDesc p qs)"

definition sortDesc :: "(nat \<times> nat) list \<Rightarrow> (nat \<times> nat) list" where
  "sortDesc ps = foldr insertDesc ps []"

text \<open>\<^verbatim>\<open>Math.abs(x - y)\<close> on offsets.\<close>

definition absDiff :: "nat \<Rightarrow> nat \<Rightarrow> nat" where
  "absDiff x y = (if x \<le> y then y - x else x - y)"

text \<open>
  The loop of \<^verbatim>\<open>findParagraphByRange\<close>. The accumulator is \<^verbatim>\<open>best\<close> with
  \<^verbatim>\<open>bestDelta\<close>; \<open>None\<close> is the start, \<^verbatim>\<open>null\<close> with \<^verbatim>\<open>Infinity\<close>.
\<close>

fun closest :: "nat \<Rightarrow> StructuralElement list \<Rightarrow> (StructuralElement \<times> nat) option \<Rightarrow>
    (StructuralElement \<times> nat) option" where
  "closest target [] best = best"
| "closest target (item # items) best =
     (case (se_paragraph item, startIndex item, endIndex item) of
        (Some _, Some s, Some _) \<Rightarrow>
          (let delta = absDiff s target
           in case best of
                None \<Rightarrow> closest target items (Some (item, delta))
              | Some (b, bestDelta) \<Rightarrow>
                  if delta < bestDelta then closest target items (Some (item, delta))
                  else closest target items best)
      | _ \<Rightarrow> closest target items best)"

definition findParagraphByRange :: "Document \<Rightarrow> nat \<Rightarrow> nat \<Rightarrow> StructuralElement option" where
  "findParagraphByRange doc s e =
     (case body_content doc of
        None \<Rightarrow> None
      | Some content \<Rightarrow> map_option fst (closest s content None))"

text \<open>\<^verbatim>\<open>headingsList.some((h) => h.toUpperCase() === text)\<close>\<close>

definition someHeading :: "string list \<Rightarrow> nat list \<Rightarrow> bool" where
  "someHeading headingsList text = list_ex (\<lambda>h. toUpperCase h = text) headingsList"

definition isImmediatelyAfterHeading ::
    "Document \<Rightarrow> StructuralElement \<Rightarrow> string list \<Rightarrow> bool" where
  "isImmediatelyAfterHeading doc par headingsList =
     (case body_content doc of
        None \<Rightarrow> False
      | Some content \<Rightarrow>
          (case firstIndexFrom (\<lambda>x. startIndex x = startIndex par) content 0 of
             None \<Rightarrow> False
           | Some idx \<Rightarrow>
               if idx = 0 then False
               else someHeading headingsList (lineText (content ! (idx - 1)))))"

definition isImmediatelyBeforeHeading ::
    "Document \<Rightarrow> StructuralElement \<Rightarrow> string list \<Rightarrow> bool" where
  "isImmediatelyBeforeHeading doc par headingsList =
     (case body_content doc of
        None \<Rightarrow> False
      | Some content \<Rightarrow>
          (case firstIndexFrom (\<lambda>x. startIndex x = startIndex par) content 0 of
             None \<Rightarrow> False
           | Some idx \<Rightarrow>
               if idx \<ge> length content - 1 then False
               else someHeading headingsList (lineText (content ! (idx + 1)))))"

text \<open>\<^verbatim>\<open>match.startIndex ?? 0\<close>\<close>

definition orZero :: "nat option \<Rightarrow> nat" where
  "orZero i = (case i of None \<Rightarrow> 0 | Some n \<Rightarrow> n)"

text \<open>
  One turn of the loop of \<^verbatim>\<open>removeEmptyBarLinesOneByOne\<close> on the snapshot it has just
  read: the requests it sends for the candidate range, none when it goes on to the next
  candidate.
\<close>

definition sweepRequests :: "Document \<Rightarrow> string list \<Rightarrow> nat \<times> nat \<Rightarrow> request list" where
  "sweepRequests doc headingsList p =
     (case findParagraphByRange doc (fst p) (snd p) of
        None \<Rightarrow> []
      | Some match \<Rightarrow>
          (let text = trim (getParagraphText match);
               isBar = (text \<in> set [''|'', ''| '', '' |'', '' | '']);
               isEmpty = (text = [])
           in if \<not> isEmpty \<and> \<not> isBar then []
              else if isImmediatelyAfterHeading doc match headingsList then []
              else if isImmediatelyBeforeHeading doc match headingsList then []
              else [DeleteContentRange (orZero (startIndex match)) (orZero (endIndex match))]))"

fun sweepLoop :: "'s docs_api \<Rightarrow> string list \<Rightarrow> (nat \<times> nat) list \<Rightarrow> 's run \<Rightarrow> 's run" where
  "sweepLoop api headingsList [] r = r"
| "sweepLoop api headingsList (p # ps) r =
     (let doc = documents_get api (store r)
      in case body_content doc of
           None \<Rightarrow> r
         | Some _ \<Rightarrow>
             (case sweepRequests doc headingsList p of
                [] \<Rightarrow> sweepLoop api headingsList ps r
              | req # reqs \<Rightarrow> sweepLoop api headingsList ps (tryBatch api (req # reqs) r)))"

definition removeEmptyBarLinesOneByOne :: "'s docs_api \<Rightarrow> string list \<Rightarrow> 's run \<Rightarrow> 's run" where
  "removeEmptyBarLinesOneByOne api headingsList r =
     (case body_content (documents_get api (store r)) of
        None \<Rightarrow> r
      | Some content \<Rightarrow> sweepLoop api headingsList (sortDesc (collectParagraphs content)) r)"

text \<open>The words of the sweeper's contract, on the blocks of a snapshot.\<close>

definition blankOrBar :: "StructuralElement \<Rightarrow> bool" where
  "blankOrBar item = (trim (getParagraphText item) = [] \<or> trim (getParagraphText item) = ''|'')"

definition retainedHeading :: "string list \<Rightarrow> StructuralElement \<Rightarrow> bool" where
  "retainedHeading headingsList item = (lineText item \<in> set (map toUpperCase headingsList))"

definition adjacentToHeading :: "StructuralElement list \<Rightarrow> string list \<Rightarrow> nat \<Rightarrow> bool" where
  "adjacentToHeading content headingsList i =
     ((0 < i \<and> retainedHeading headingsList (content ! (i - 1))) \<or>
      (i + 1 < length content \<and> retainedHeading headingsList (content ! (i + 1))))"

text \<open>The start offsets of the blocks that carry one.\<close>

definition startOffsets :: "StructuralElement list \<Rightarrow> nat list" where
  "startOffsets content = List.map_filter startIndex content"

definition blankWithoutStart :: "StructuralElement list" where
  "blankWithoutStart =
     [textParagraph 1 ''Intro\<newline>'', (textParagraph 7 ''\<newline>'')\<lparr>startIndex := None\<rparr>,
      textParagraph 8 ''Outro\<newline>'']"

text \<open>
  A snapshot where two blocks share a start offset: a block without a paragraph, and the
  blank paragraph before the heading.
\<close>

definition sharedStart :: "StructuralElement list" where
  "sharedStart =
     [textParagraph 1 ''Intro\<newline>'',
      \<lparr>startIndex = Some 7, endIndex = None, se_paragraph = None\<rparr>,
      textParagraph 7 ''\<newline>'', textParagraph 8 ''EXPERIENCE\<newline>'']"

text \<open>A block that \<^verbatim>\<open>findParagraphByRange\<close> considers.\<close>

definition eligible :: "StructuralElement \<Rightarrow> bool" where
  "eligible item = (se_paragraph item \<noteq> None \<and> startIndex item \<noteq> None \<and> endIndex item \<noteq> None)"

text \<open>A store for examples: it always shows the same snapshot and accepts every batch.\<close>

definition constStore :: "Document \<Rightarrow> unit docs_api" where
  "constStore doc = \<lparr>documents_get = (\<lambda>_. doc), documents_batchUpdate = (\<lambda>reqs s. Some s)\<rparr>"

section \<open>PlaceholderResolver\<close>

text \<open>
  \<^verbatim>\<open>FlattenedResumeData\<close> is a plain object with string fields: the map holds its own
  properties. A plain object also inherits the members of \<^verbatim>\<open>Object.prototype\<close>, and
  \<^verbatim>\<open>data[key]\<close> reads them too; none of them is a string and all are truthy.
\<close>

type_synonym FlattenedResumeData = "string \<rightharpoonup> string"

datatype js_value = JSUndefined | JSString string | JSInherited

definition objectPrototypeKeys :: "string list" where
  "objectPrototypeKeys =
     [''constructor'', ''hasOwnProperty'', ''isPrototypeOf'', ''propertyIsEnumerable'',
      ''toLocaleString'', ''toString'', ''valueOf'', ''__proto__'', ''__defineGetter__'',
      ''__defineSetter__'', ''__lookupGetter__'', ''__lookupSetter__'']"

text \<open>\<^verbatim>\<open>data[key]\<close>\<close>

definition getField :: "FlattenedResumeData \<Rightarrow> string \<Rightarrow> js_value" where
  "getField data key =
     (case data key of
        Some v \<Rightarrow> JSString v
      | None \<Rightarrow> if key \<in> set objectPrototypeKeys then JSInherited else JSUndefined)"

text \<open>\<^verbatim>\<open>v || ""\<close>\<close>

definition orEmpty :: "js_value \<Rightarrow> js_value" where
  "orEmpty v = (case v of JSUndefined \<Rightarrow> JSString [] | _ \<Rightarrow> v)"

text \<open>\<^verbatim>\<open>!v\<close>\<close>

definition falsy :: "js_value \<Rightarrow> bool" where
  "falsy v = (v = JSUndefined \<or> v = JSString [])"

definition notBrace :: "char \<Rightarrow> bool" where
  "notBrace c = (c \<noteq> CHR ''{'' \<and> c \<noteq> CHR ''}'')"

text \<open>
  The regular expression \<^verbatim>\<open>/{{([^{}]+)}}/\<close> tried at the start of a string: two opening
  braces, the longest run of characters that are not braces, which must not be empty, and
  two closing braces. (A shorter run cannot match: the character after it is not a brace.)
\<close>

definition placeholderAt :: "string \<Rightarrow> string option" where
  "placeholderAt s =
     (if prefix ''{{'' s then
        (let name = takeWhile notBrace (drop 2 s);
             rest = dropWhile notBrace (drop 2 s)
         in if name \<noteq> [] \<and> prefix ''}}'' rest then Some (''{{'' @ name @ ''}}'') else None)
      else None)"

text \<open>
  \<^verbatim>\<open>content.match(/{{([^{}]+)}}/g)\<close>: the matches from left to right, the search going on
  after the end of each match. A match \<open>m\<close> is not empty and starts with the head \<open>c\<close>, so
  the rest of the string after it is \<open>drop (length m - 1) cs\<close>. The empty list is
  JavaScript's \<^verbatim>\<open>null\<close>.
\<close>

fun matchPlaceholders :: "string \<Rightarrow> string list" where
  "matchPlaceholders [] = []"
| "matchPlaceholders (c # cs) =
     (case placeholderAt (c # cs) of
        None \<Rightarrow> matchPlaceholders cs
      | Some m \<Rightarrow> m # matchPlaceholders (drop (length m - 1) cs))"

text \<open>\<^verbatim>\<open>found.forEach((m) => placeholders.add(m))\<close> on a \<^verbatim>\<open>Set\<close>, which keeps insertion order.\<close>

fun addAll :: "string list \<Rightarrow> string list \<Rightarrow> string list" where
  "addAll acc [] = acc"
| "addAll acc (m # ms) = addAll (if m \<in> set acc then acc else acc @ [m]) ms"

text \<open>The text runs the first loop of \<^verbatim>\<open>doReplacePlaceholders\<close> visits, in order.\<close>

definition textRuns :: "StructuralElement list \<Rightarrow> string list" where
  "textRuns content =
     concat (map (\<lambda>item. case paragraphElements item of
                            None \<Rightarrow> []
                          | Some els \<Rightarrow> map runContent els) content)"

definition findPlaceholders :: "StructuralElement list \<Rightarrow> string list" where
  "findPlaceholders content = foldl addAll [] (map matchPlaceholders (textRuns content))"

text \<open>\<^verbatim>\<open>placeholder.replace(/[{}]/g, "").trim()\<close>\<close>

definition slotKey :: "string \<Rightarrow> string" where
  "slotKey placeholder = trim (filter notBrace placeholder)"

text \<open>The characters \<^verbatim>\<open>.\<close> does not match, among the code units below 256: line feed, carriage return.\<close>

definition isLineTerminator :: "char \<Rightarrow> bool" where
  "isLineTerminator c = (c = CHR 0x0A \<or> c = CHR 0x0D)"

text \<open>
  \<^verbatim>\<open>(.*?)\*\*\<close> after an opening \<^verbatim>\<open>**\<close>: the shortest run of characters other than line
  terminators that is followed by \<^verbatim>\<open>**\<close>. The result is the run and the string after the
  closing \<^verbatim>\<open>**\<close>.
\<close>

fun boldClose :: "string \<Rightarrow> (string \<times> string) option" where
  "boldClose [] = None"
| "boldClose (c # cs) =
     (if prefix ''**'' (c # cs) then Some ([], drop 1 cs)
      else if isLineTerminator c then None
      else (case boldClose cs of None \<Rightarrow> None | Some (g, rest) \<Rightarrow> Some (c # g, rest)))"

lemma boldClose_length: "boldClose s = Some (g, rest) \<Longrightarrow> length rest < length s"
proof (induction s arbitrary: g)
  case Nil
  then show ?case by simp
next
  case (Cons c cs)
  show ?case
  proof (cases "prefix ''**'' (c # cs)")
    case True
    with Cons.prems show ?thesis by auto
  next
    case False
    with Cons.prems obtain g' where "boldClose cs = Some (g', rest)"
      by (auto split: if_splits option.splits)
    from Cons.IH [OF this] show ?thesis by simp
  qed
qed

text \<open>
  \<^verbatim>\<open>value.replace(/\*\*(.*?)\*\*/g, "$1")\<close>: from left to right, each match is replaced
  by its group.
\<close>

function stripBold :: "string \<Rightarrow> string" where
  "stripBold [] = []"
| "stripBold (c # cs) =
     (if prefix ''**'' (c # cs) then
        (case boldClose (drop 1 cs) of
           None \<Rightarrow> c # stripBold cs
         | Some (g, rest) \<Rightarrow> g @ stripBold rest)
      else c # stripBold cs)"
  by pat_completeness auto
termination
proof (relation "measure length")
  show "wf (measure length)" by simp
next
  fix c :: char and cs
  show "(cs, c # cs) \<in> measure length" by simp
next
  fix c :: char and cs x2 x y
  assume "boldClose (drop 1 cs) = Some x2" and "(x, y) = x2"
  then have "boldClose (drop 1 cs) = Some (x, y)" by simp
  from boldClose_length [OF this] show "(y, c # cs) \<in> measure length" by simp
next
  fix c :: char and cs
  show "(cs, c # cs) \<in> measure length" by simp
qed

text \<open>
  The body of the second loop of \<^verbatim>\<open>doReplacePlaceholders\<close>: the request for one
  placeholder. \<^verbatim>\<open>value.replace\<close> throws a \<^verbatim>\<open>TypeError\<close> when the value is not a string.
  The skills branch is reached only with a key that is no member of
  \<^verbatim>\<open>Object.prototype\<close>, so its value is a string.
\<close>

definition placeholderRequest :: "FlattenedResumeData \<Rightarrow> string \<Rightarrow> failure + request" where
  "placeholderRequest data placeholder =
     (let key = slotKey placeholder;
          v = orEmpty (getField data key);
          isEmptyPoint =
            ((includesStr key ''experience_point_'' \<or> includesStr key ''project_point_'') \<and> falsy v)
      in if isEmptyPoint then Inr (ReplaceAllText placeholder ''##EMPTY_LINE_TO_REMOVE##'')
         else if key = ''technical_skills'' \<or> key = ''language_skills'' then
           (case v of JSString str \<Rightarrow> Inr (ReplaceAllText placeholder str) | _ \<Rightarrow> Inl TypeError)
         else
           (case v of
              JSString str \<Rightarrow> Inr (ReplaceAllText placeholder (stripBold str))
            | _ \<Rightarrow> Inl TypeError))"

text \<open>The loop: the requests in the order of the placeholders, up to the first exception.\<close>

fun placeholderRequests :: "FlattenedResumeData \<Rightarrow> string list \<Rightarrow> failure + request list" where
  "placeholderRequests data [] = Inr []"
| "placeholderRequests data (p # ps) =
     (case placeholderRequest data p of
        Inl f \<Rightarrow> Inl f
      | Inr req \<Rightarrow>
          (case placeholderRequests data ps of
             Inl f \<Rightarrow> Inl f
           | Inr reqs \<Rightarrow> Inr (req # reqs)))"

definition doReplacePlaceholders ::
    "'s docs_api \<Rightarrow> FlattenedResumeData \<Rightarrow> 's run \<Rightarrow> failure + 's run" where
  "doReplacePlaceholders api data r =
     (case body_content (documents_get api (store r)) of
        None \<Rightarrow> Inr r
      | Some content \<Rightarrow>
          (case placeholderRequests data (findPlaceholders content) of
             Inl f \<Rightarrow> Inl f
           | Inr reqs \<Rightarrow> if reqs \<noteq> [] then sendBatch api reqs r else Inr r))"

section \<open>MarkerStyler\<close>

definition isIdChar :: "char \<Rightarrow> bool" where
  "isIdChar c = (c \<in> set ''abcdefghijklmnopqrstuvwxyz0123456789'')"

text \<open>
  The regular expression \<^verbatim>\<open>/@@BOLD-([a-z0-9]+)@@([^]+?)@@BOLD-\1-END@@/\<close> tried at the start
  of a string. The id is the longest run of id characters (a shorter one is not followed by
  \<^verbatim>\<open>@@\<close>); the payload is the shortest run of one or more characters that the closing
  delimiter of the same id follows. The result is the whole match and the payload,
  \<^verbatim>\<open>match[0]\<close> and \<^verbatim>\<open>match[2]\<close>.
\<close>

definition markerAt :: "string \<Rightarrow> (string \<times> string) option" where
  "markerAt s =
     (if prefix ''@@BOLD-'' s then
        (let ident = takeWhile isIdChar (drop 7 s);
             rest = dropWhile isIdChar (drop 7 s)
         in if ident \<noteq> [] \<and> prefix ''@@'' rest then
              (let body = drop 2 rest;
                   closing = ''@@BOLD-'' @ ident @ ''-END@@''
               in case indexOfScan closing (drop 1 body) 1 of
                    None \<Rightarrow> None
                  | Some k \<Rightarrow>
                      if body = [] then None
                      else Some (''@@BOLD-'' @ ident @ ''@@'' @ take k body @ closing, take k body))
            else None)
      else None)"

text \<open>\<^verbatim>\<open>pText.match(markerRegex)\<close>: the leftmost match.\<close>

fun matchMarker :: "string \<Rightarrow> (string \<times> string) option" where
  "matchMarker [] = None"
| "matchMarker (c # cs) =
     (case markerAt (c # cs) of Some m \<Rightarrow> Some m | None \<Rightarrow> matchMarker cs)"

text \<open>The first loop of a pass: the match of the first block whose text has one.\<close>

fun findFirstMarker :: "StructuralElement list \<Rightarrow> (string \<times> string) option" where
  "findFirstMarker [] = None"
| "findFirstMarker (item # items) =
     (case matchMarker (getParagraphText item) of
        Some m \<Rightarrow> Some m
      | None \<Rightarrow> findFirstMarker items)"

lemma indexOfScan_bounds:
  "indexOfScan t s i = Some pos \<Longrightarrow> i \<le> pos \<and> pos + length t \<le> i + length s"
proof (induction s arbitrary: i)
  case Nil
  then show ?case by (simp split: if_splits)
next
  case (Cons c cs)
  show ?case
  proof (cases "prefix t (c # cs)")
    case True
    with Cons.prems have "pos = i" by simp
    moreover from True have "length t \<le> length (c # cs)" by (rule prefix_length_le)
    ultimately show ?thesis by simp
  next
    case False
    with Cons.prems have "indexOfScan t cs (Suc i) = Some pos" by simp
    from Cons.IH [OF this] show ?thesis by simp
  qed
qed

lemma indexOf_bounds:
  "indexOf c t from = Some pos \<Longrightarrow> min from (length c) \<le> pos \<and> pos + length t \<le> length c"
proof -
  assume "indexOf c t from = Some pos"
  then have "indexOfScan t (drop (min from (length c)) c) (min from (length c)) = Some pos"
    by (simp add: indexOf_def Let_def)
  from indexOfScan_bounds [OF this] show ?thesis by auto
qed

text \<open>
  The \<^verbatim>\<open>while (pos !== -1)\<close> loop over one text run: a request for the occurrence at
  \<open>pos\<close>, then the search goes on after it. \<open>from\<close> is where the next \<^verbatim>\<open>indexOf\<close> starts.
  The text is never empty here: a pass whose payload trims to the empty string has left
  with \<^verbatim>\<open>continue\<close> before.
\<close>

function boldRangesFrom :: "string \<Rightarrow> string \<Rightarrow> nat \<Rightarrow> nat \<Rightarrow> request list" where
  "boldRangesFrom c t base from =
     (if t = [] then []
      else (case indexOf c t from of
              None \<Rightarrow> []
            | Some pos \<Rightarrow>
                UpdateTextStyle (base + pos) (base + pos + length t) #
                boldRangesFrom c t base (pos + length t)))"
  by pat_completeness auto
termination
proof (relation "measure (\<lambda>(c, t, base, from). length c - from)")
  show "wf (measure (\<lambda>(c, t, base, from). length c - from))" by simp
next
  fix c t :: string and base fromIndex pos :: nat
  assume t: "t \<noteq> []" and "indexOf c t fromIndex = Some pos"
  from indexOf_bounds [OF this(2)]
  have b: "min fromIndex (length c) \<le> pos" "pos + length t \<le> length c" by auto
  from t have l: "0 < length t" by simp
  from b l have "length c - (pos + length t) < length c - fromIndex" by arith
  then show "((c, t, base, pos + length t), (c, t, base, fromIndex))
      \<in> measure (\<lambda>(c, t, base, from). length c - from)" by simp
qed

declare boldRangesFrom.simps [simp del]

text \<open>The requests for one text run: it needs a content and a start offset.\<close>

definition elementBoldRequests :: "string \<Rightarrow> ParagraphElement \<Rightarrow> request list" where
  "elementBoldRequests t el =
     (case pe_startIndex el of
        None \<Rightarrow> []
      | Some base \<Rightarrow> if runContent el = [] then [] else boldRangesFrom (runContent el) t base 0)"

definition boldRequestsFor :: "StructuralElement list \<Rightarrow> string \<Rightarrow> request list" where
  "boldRequestsFor content t =
     concat (map (\<lambda>item. case paragraphElements item of
                            None \<Rightarrow> []
                          | Some els \<Rightarrow>
                              if includesStr (getParagraphText item) t
                              then concat (map (elementBoldRequests t) els)
                              else []) content)"

text \<open>The chunks of \<^verbatim>\<open>BATCH_SIZE = 10\<close>, each sent inside a \<^verbatim>\<open>try\<close> block.\<close>

function sendChunks :: "'s docs_api \<Rightarrow> request list \<Rightarrow> 's run \<Rightarrow> 's run" where
  "sendChunks api reqs r =
     (if reqs = [] then r else sendChunks api (drop 10 reqs) (tryBatch api (take 10 reqs) r))"
  by pat_completeness auto
termination
proof (relation "measure (\<lambda>(api, reqs, r). length reqs)")
  show "wf (measure (\<lambda>(api :: 's docs_api, reqs :: request list, r :: 's run). length reqs))"
    by (rule wf_measure)
next
  fix api :: "'s docs_api" and reqs :: "request list" and r :: "'s run"
  assume "reqs \<noteq> []"
  then have "length (drop 10 reqs) < length reqs" by (cases reqs) simp_all
  then show "((api, drop 10 reqs, tryBatch api (take 10 reqs) r), (api, reqs, r))
      \<in> measure (\<lambda>(api, reqs, r). length reqs)" by simp
qed

declare sendChunks.simps [simp del]

text \<open>
  The \<^verbatim>\<open>while (foundAny && passCount < 50)\<close> loop. \<open>passCount\<close> is the count before the
  pass; \<open>doc\<close> is the snapshot the pass scans. \<^verbatim>\<open>foundAny\<close> is true at every test of the
  loop condition: a pass that finds no marker leaves the loop with \<^verbatim>\<open>break\<close>.
\<close>

function applyBoldPasses :: "'s docs_api \<Rightarrow> nat \<Rightarrow> Document \<Rightarrow> 's run \<Rightarrow> failure + 's run" where
  "applyBoldPasses api passCount doc r =
     (if passCount < 50 then
        (case body_content doc of
           None \<Rightarrow> Inr r
         | Some content \<Rightarrow>
             (case findFirstMarker content of
                None \<Rightarrow> Inr r
              | Some (entire, boldText) \<Rightarrow>
                  (case sendBatch api [ReplaceAllText entire boldText] r of
                     Inl f \<Rightarrow> Inl f
                   | Inr r1 \<Rightarrow>
                       (let doc1 = documents_get api (store r1)
                        in case body_content doc1 of
                             None \<Rightarrow> Inr r1
                           | Some content1 \<Rightarrow>
                               if trim boldText = [] then
                                 applyBoldPasses api (passCount + 1) doc1 r1
                               else
                                 (let boldRequests = boldRequestsFor content1 boldText
                                  in if boldRequests \<noteq> [] then
                                       (let r2 = sendChunks api boldRequests r1
                                        in applyBoldPasses api (passCount + 1)
                                             (documents_get api (store r2)) r2)
                                     else applyBoldPasses api (passCount + 1) doc1 r1)))))
      else Inr r)"
  by pat_completeness auto
termination
  apply (relation "measure (\<lambda>(api, passCount, doc, r). 50 - passCount)")
     apply (rule wf_measure)
    apply (simp_all only: in_measure split_conv)
  done

declare applyBoldPasses.simps [simp del]

definition applyBoldMarkers :: "'s docs_api \<Rightarrow> 's run \<Rightarrow> failure + 's run" where
  "applyBoldMarkers api r =
     (let doc = documents_get api (store r)
      in case body_content doc of
           None \<Rightarrow> Inr r
         | Some _ \<Rightarrow> applyBoldPasses api 0 doc r)"

section \<open>Marker cleanup\<close>

definition removeEmptyMarkers :: "'s docs_api \<Rightarrow> 's run \<Rightarrow> 's run" where
  "removeEmptyMarkers api r = tryBatch api [ReplaceAllText ''##EMPTY_LINE_TO_REMOVE##'' []] r"

section \<open>SeparatorFixer\<close>

text \<open>
  One turn of a loop of \<^verbatim>\<open>fixCompanyLocationBars\<close>: the fields \<open>k1 @ i\<close> and \<open>k2 @ i\<close>,
  a request when both are truthy. (The keys are \<^verbatim>\<open>company_1\<close> and the like; none is a
  member of \<^verbatim>\<open>Object.prototype\<close>, so the lookup reads the object's own fields.)
\<close>

definition barRequest :: "FlattenedResumeData \<Rightarrow> string \<Rightarrow> string \<Rightarrow> string \<Rightarrow> request list" where
  "barRequest data k1 k2 i =
     (case (data (k1 @ i), data (k2 @ i)) of
        (Some c, Some loc) \<Rightarrow>
          if c \<noteq> [] \<and> loc \<noteq> [] then [ReplaceAllText (c @ '' '' @ loc) (c @ '' | '' @ loc)]
          else []
      | _ \<Rightarrow> [])"

definition oneToFive :: "string list" where
  "oneToFive = [''1'', ''2'', ''3'', ''4'', ''5'']"

definition barRequests :: "FlattenedResumeData \<Rightarrow> request list" where
  "barRequests data =
     concat (map (barRequest data ''company_'' ''company_location_'') oneToFive) @
     concat (map (barRequest data ''institution_'' ''degree_'') oneToFive)"

definition fixCompanyLocationBars ::
    "'s docs_api \<Rightarrow> FlattenedResumeData \<Rightarrow> 's run \<Rightarrow> failure + 's run" where
  "fixCompanyLocationBars api data r =
     (let requests = barRequests data
      in if requests \<noteq> [] then sendBatch api requests r else Inr r)"

section \<open>The pipeline\<close>

text \<open>
  \<^verbatim>\<open>replacePlaceholders\<close>: the six stages in order. An exception of a stage ends the
  run. \<open>structuredData\<close> and \<open>headingsList\<close> are the optional parameters.
\<close>

definition replacePlaceholders ::
    "'s docs_api \<Rightarrow> FlattenedResumeData \<Rightarrow> ResumeData option \<Rightarrow> string list option \<Rightarrow>
     's run \<Rightarrow> failure + 's run" where
  "replacePlaceholders api data structuredData headingsList r =
     (let r1 = (case structuredData of None \<Rightarrow> r | Some d \<Rightarrow> removeEmptySections api d r)
      in case doReplacePlaceholders api data r1 of
           Inl f \<Rightarrow> Inl f
         | Inr r2 \<Rightarrow>
             (case applyBoldMarkers api r2 of
                Inl f \<Rightarrow> Inl f
              | Inr r3 \<Rightarrow>
                  (let r4 = removeEmptyMarkers api r3;
                       r5 = (case headingsList of
                               None \<Rightarrow> r4
                             | Some hl \<Rightarrow> removeEmptyBarLinesOneByOne api hl r4)
                   in fixCompanyLocationBars api data r5)))"

section \<open>A reference store\<close>

text \<open>
  An in-memory store to run the pipeline on: the body text as one buffer of characters,
  each with its bold flag. Offset \<open>0\<close> is the section break that opens the body; the
  character at position \<open>i\<close> of the buffer has offset \<open>i + 1\<close>. A paragraph is a line with
  its line feed; a text run is a longest stretch of one style.
\<close>

type_synonym buffer = "(char \<times> bool) list"

definition plain :: "string \<Rightarrow> buffer" where
  "plain s = map (\<lambda>c. (c, False)) s"

fun splitLines :: "buffer \<Rightarrow> buffer list" where
  "splitLines [] = []"
| "splitLines (x # xs) =
     (case splitLines xs of
        [] \<Rightarrow> [[x]]
      | l # ls \<Rightarrow> if fst x = CHR 0x0A then [x] # l # ls else (x # l) # ls)"

fun groupRuns :: "buffer \<Rightarrow> (string \<times> bool) list" where
  "groupRuns [] = []"
| "groupRuns (x # xs) =
     (case groupRuns xs of
        [] \<Rightarrow> [([fst x], snd x)]
      | (s, b) # rs \<Rightarrow>
          if b = snd x then (fst x # s, b) # rs else ([fst x], snd x) # (s, b) # rs)"

fun renderRuns :: "nat \<Rightarrow> (string \<times> bool) list \<Rightarrow> ParagraphElement list" where
  "renderRuns i [] = []"
| "renderRuns i ((s, b) # rs) =
     \<lparr>pe_startIndex = Some i, pe_endIndex = Some (i + length s),
      pe_textRun = Some \<lparr>tr_content = Some s, tr_bold = b\<rparr>\<rparr> # renderRuns (i + length s) rs"

fun renderParagraphs :: "nat \<Rightarrow> buffer list \<Rightarrow> StructuralElement list" where
  "renderParagraphs i [] = []"
| "renderParagraphs i (l # ls) =
     \<lparr>startIndex = Some i, endIndex = Some (i + length l),
      se_paragraph = Some \<lparr>elements = Some (renderRuns i (groupRuns l))\<rparr>\<rparr> #
     renderParagraphs (i + length l) ls"

definition sectionBreak :: StructuralElement where
  "sectionBreak = \<lparr>startIndex = None, endIndex = Some 1, se_paragraph = None\<rparr>"

definition render :: "buffer \<Rightarrow> Document" where
  "render buf = \<lparr>body_content = Some (sectionBreak # renderParagraphs 1 (splitLines buf))\<rparr>"

text \<open>
  Replacement of every occurrence of a text, from left to right; the inserted text takes
  the style of the first character it replaces. An occurrence is not empty and starts
  with the head \<open>x\<close>, so the buffer after it is \<open>drop (length t - 1) xs\<close>.
\<close>

fun replaceAll :: "string \<Rightarrow> string \<Rightarrow> buffer \<Rightarrow> buffer" where
  "replaceAll t rep [] = []"
| "replaceAll t rep (x # xs) =
     (if t \<noteq> [] \<and> prefix t (map fst (x # xs))
      then map (\<lambda>c. (c, snd x)) rep @ replaceAll t rep (drop (length t - 1) xs)
      else x # replaceAll t rep xs)"

text \<open>
  One request. A search text must not be empty. A range must lie in the body, and a
  deletion must leave the last line feed of the body in place.
\<close>

fun applyRequest :: "request \<Rightarrow> buffer \<Rightarrow> buffer option" where
  "applyRequest (ReplaceAllText t rep) buf = (if t = [] then None else Some (replaceAll t rep buf))"
| "applyRequest (DeleteContentRange s e) buf =
     (if 1 \<le> s \<and> s < e \<and> e \<le> length buf then Some (take (s - 1) buf @ drop (e - 1) buf)
      else None)"
| "applyRequest (UpdateTextStyle s e) buf =
     (if 1 \<le> s \<and> s < e \<and> e \<le> length buf + 1
      then Some (take (s - 1) buf @ map (\<lambda>x. (fst x, True)) (take (e - s) (drop (s - 1) buf)) @
                 drop (e - 1) buf)
      else None)"

fun applyBatch :: "request list \<Rightarrow> buffer \<Rightarrow> buffer option" where
  "applyBatch [] buf = Some buf"
| "applyBatch (req # reqs) buf =
     (case applyRequest req buf of None \<Rightarrow> None | Some buf' \<Rightarrow> applyBatch reqs buf')"

definition memoryStore :: "buffer docs_api" where
  "memoryStore = \<lparr>documents_get = render, documents_batchUpdate = applyBatch\<rparr>"

text \<open>A store whose every \<^verbatim>\<open>batchUpdate\<close> throws.\<close>

definition failingStore :: "buffer docs_api" where
  "failingStore = \<lparr>documents_get = render, documents_batchUpdate = (\<lambda>reqs buf. None)\<rparr>"

definition start :: "'s \<Rightarrow> 's run" where
  "start s = \<lparr>store = s, trace = []\<rparr>"

section \<open>The words of the claims\<close>

text \<open>The value of a field, the empty string for a missing one.\<close>

definition fieldOr :: "FlattenedResumeData \<Rightarrow> string \<Rightarrow> string" where
  "fieldOr data k = (case data k of None \<Rightarrow> [] | Some v \<Rightarrow> v)"




text \<open>A text holds a slot token \<open>{{name}}\<close>, a name of one or more characters, none a brace.\<close>

definition hasSlotToken :: "string \<Rightarrow> bool" where
  "hasSlotToken s =
     (\<exists>pre name post. s = pre @ ''{{'' @ name @ ''}}'' @ post \<and> name \<noteq> [] \<and> list_all notBrace name)"

text \<open>A text holds a marker span: both delimiters of one id around a payload.\<close>

definition hasMarkerSpan :: "string \<Rightarrow> bool" where
  "hasMarkerSpan s =
     (\<exists>pre ident payload post.
        s = pre @ ''@@BOLD-'' @ ident @ ''@@'' @ payload @ ''@@BOLD-'' @ ident @ ''-END@@'' @ post \<and>
        ident \<noteq> [] \<and> list_all isIdChar ident \<and> payload \<noteq> [])"

text \<open>The texts of the blocks of a snapshot.\<close>

definition docTexts :: "Document \<Rightarrow> string list" where
  "docTexts doc = (case body_content doc of None \<Rightarrow> [] | Some content \<Rightarrow> map getParagraphText content)"

text \<open>The fields of Scenario B, and an institution without a degree.\<close>

definition acmeRemote :: FlattenedResumeData where
  "acmeRemote = [''company_1'' \<mapsto> ''Acme'', ''company_location_1'' \<mapsto> ''Remote'',
     ''institution_1'' \<mapsto> ''MIT'', ''degree_1'' \<mapsto> []]"

text \<open>Fields and documents of the examples.\<close>

definition janeDoe :: FlattenedResumeData where
  "janeDoe = [''name'' \<mapsto> ''**Jane** Doe'']"

text \<open>
  The number of marker spans of a text: the matches of the marker expression from left to
  right, each search going on after the match before. (A match is not empty and starts
  with the head \<open>c\<close>, so the text after it is \<open>drop (length entire - 1) cs\<close>.)
\<close>

fun countMarkers :: "string \<Rightarrow> nat" where
  "countMarkers [] = 0"
| "countMarkers (c # cs) =
     (case markerAt (c # cs) of
        None \<Rightarrow> countMarkers cs
      | Some (entire, payload) \<Rightarrow> Suc (countMarkers (drop (length entire - 1) cs)))"

definition markerSpans :: "Document \<Rightarrow> nat" where
  "markerSpans doc = sum_list (map countMarkers (docTexts doc))"

text \<open>The first loop of a pass of the styler, on a snapshot.\<close>

definition findMarker :: "Document \<Rightarrow> (string \<times> string) option" where
  "findMarker doc = (case body_content doc of None \<Rightarrow> None | Some content \<Rightarrow> findFirstMarker content)"

text \<open>
  The passes in a trace: the batches that are one text replacement. (The other batches of
  the styler hold style requests only.)
\<close>

fun isReplaceBatch :: "event \<Rightarrow> bool" where
  "isReplaceBatch (Sent [ReplaceAllText t rep]) = True"
| "isReplaceBatch _ = False"

definition passesIn :: "event list \<Rightarrow> nat" where
  "passesIn tr = length (filter isReplaceBatch tr)"

fun isStyleRequest :: "request \<Rightarrow> bool" where
  "isStyleRequest (UpdateTextStyle s e) = True"
| "isStyleRequest _ = False"

text \<open>The requests of a batch, sent or failed.\<close>

fun requestsOf :: "event \<Rightarrow> request list" where
  "requestsOf (Sent reqs) = reqs"
| "requestsOf (Warned reqs) = reqs"

text \<open>The text occurs in a string at a position.\<close>

definition occursAt :: "string \<Rightarrow> string \<Rightarrow> nat \<Rightarrow> bool" where
  "occursAt t c pos = (pos + length t \<le> length c \<and> take (length t) (drop pos c) = t)"

text \<open>The text runs the styler can style: the runs of paragraphs, with a start offset.\<close>

definition styledRuns :: "StructuralElement list \<Rightarrow> (nat \<times> string) list" where
  "styledRuns content =
     concat (map (\<lambda>item. case paragraphElements item of
                            None \<Rightarrow> []
                          | Some els \<Rightarrow>
                              List.map_filter
                                (\<lambda>el. case pe_startIndex el of
                                        None \<Rightarrow> None
                                      | Some base \<Rightarrow> Some (base, runContent el)) els) content)"

text \<open>
  The run after the style step of a pass with payload \<open>p\<close>, from the run \<open>r1\<close> after the
  replacement: the chunks of the bold requests, none for a payload of white space.
\<close>

definition afterStyle :: "'s docs_api \<Rightarrow> string \<Rightarrow> 's run \<Rightarrow> 's run" where
  "afterStyle api p r1 =
     (case body_content (documents_get api (store r1)) of
        None \<Rightarrow> r1
      | Some content1 \<Rightarrow>
          if trim p = [] then r1 else sendChunks api (boldRequestsFor content1 p) r1)"

text \<open>
  What the styler needs of the store, on the states \<open>I\<close>: it applies the replacement of
  the first marker span, which leaves fewer spans; and a batch of style requests, when
  it is applied, adds no span. Both lead to states of \<open>I\<close> again.
\<close>

definition storeContract :: "'s docs_api \<Rightarrow> ('s \<Rightarrow> bool) \<Rightarrow> bool" where
  "storeContract api I =
     ((\<forall>s e p. I s \<and> findMarker (documents_get api s) = Some (e, p) \<longrightarrow>
         (\<exists>s'. documents_batchUpdate api [ReplaceAllText e p] s = Some s' \<and> I s' \<and>
               markerSpans (documents_get api s') < markerSpans (documents_get api s))) \<and>
      (\<forall>s reqs s'. I s \<and> list_all isStyleRequest reqs \<and>
           documents_batchUpdate api reqs s = Some s' \<longrightarrow>
         I s' \<and> markerSpans (documents_get api s') \<le> markerSpans (documents_get api s)))"

text \<open>A line with two marker spans, and its text after one and after two replacements.\<close>

definition twoSpans :: string where
  "twoSpans = ''Used @@BOLD-a1@@Jest@@BOLD-a1-END@@ and @@BOLD-b2@@AWS@@BOLD-b2-END@@\<newline>''"

definition twoSpanTexts :: "string list" where
  "twoSpanTexts =
     [twoSpans, ''Used Jest and @@BOLD-b2@@AWS@@BOLD-b2-END@@\<newline>'', ''Used Jest and AWS\<newline>'']"

text \<open>A line with a marker span whose payload is one space.\<close>

definition blankSpan :: string where
  "blankSpan = ''Stack:@@BOLD-a1@@ @@BOLD-a1-END@@Jest\<newline>''"

text \<open>The run of the styler on the line with two spans: both payloads are bold.\<close>

definition twoSpansStyled :: "buffer run" where
  "twoSpansStyled =
     \<lparr>store = plain ''Used '' @ map (\<lambda>c. (c, True)) ''Jest'' @ plain '' and '' @
              map (\<lambda>c. (c, True)) ''AWS'' @ plain ''\<newline>'',
      trace = [Sent [ReplaceAllText ''@@BOLD-a1@@Jest@@BOLD-a1-END@@'' ''Jest''],
               Sent [UpdateTextStyle 6 10],
               Sent [ReplaceAllText ''@@BOLD-b2@@AWS@@BOLD-b2-END@@'' ''AWS''],
               Sent [UpdateTextStyle 15 18]]\<rparr>"

text \<open>
  A line with one marker span whose payload, once it stands alone, closes up with the
  text after the span to a second span; and a line with the same span twice.
\<close>

definition splicedSpan :: string where
  "splicedSpan = ''@@BOLD-a@@@@BOL@@BOLD-a-END@@D-b@@x@@BOLD-b-END@@\<newline>''"

definition twinSpans :: string where
  "twinSpans = ''@@BOLD-a@@x@@BOLD-a-END@@ @@BOLD-a@@x@@BOLD-a-END@@\<newline>''"

text \<open>A body of three sections, as text; the store renders it from offset 1.\<close>

definition threeSectionsBody :: string where
  "threeSectionsBody =
     ''Experience\<newline>Acme\<newline>  projects \<newline>Demo\<newline>\<newline>EDUCATION\<newline>MIT\<newline>''"

text \<open>The blocks of its snapshot: the section break, then the seven paragraphs.\<close>

definition threeSectionsBlocks :: "StructuralElement list" where
  "threeSectionsBlocks = sectionBreak # renderParagraphs 1 (splitLines (plain threeSectionsBody))"

text \<open>A body with a bar line under a heading, a bar line between two lines, and a last blank line.\<close>

definition barLinesBody :: string where
  "barLinesBody = ''EXPERIENCE\<newline> | \<newline>Acme\<newline> | \<newline>Initech\<newline>\<newline>''"

definition barLinesBlocks :: "StructuralElement list" where
  "barLinesBlocks = sectionBreak # renderParagraphs 1 (splitLines (plain barLinesBody))"

text \<open>
  The distance \<^verbatim>\<open>Math.abs(item.startIndex - startIndex)\<close> of a block from a target offset,
  and the block \<^verbatim>\<open>findParagraphByRange\<close> is after: the first, in the order of the
  snapshot, of the blocks with a paragraph and both offsets that are closest to the target.
\<close>

definition distanceTo :: "nat \<Rightarrow> StructuralElement \<Rightarrow> nat" where
  "distanceTo t item = absDiff (orZero (startIndex item)) t"

definition firstClosest :: "StructuralElement list \<Rightarrow> nat \<Rightarrow> nat \<Rightarrow> bool" where
  "firstClosest content t i =
     (i < length content \<and> eligible (content ! i) \<and>
      (\<forall>j < length content. eligible (content ! j) \<longrightarrow>
         distanceTo t (content ! i) \<le> distanceTo t (content ! j)) \<and>
      (\<forall>j < i. eligible (content ! j) \<longrightarrow> distanceTo t (content ! i) < distanceTo t (content ! j)))"

text \<open>A text starts with a marker span.\<close>

definition startsWithSpan :: "string \<Rightarrow> bool" where
  "startsWithSpan s =
     (\<exists>ident payload post.
        s = ''@@BOLD-'' @ ident @ ''@@'' @ payload @ ''@@BOLD-'' @ ident @ ''-END@@'' @ post \<and>
        ident \<noteq> [] \<and> list_all isIdChar ident \<and> payload \<noteq> [])"

section \<open>Properties of a batch\<close>

lemma tryBatch_trace: "\<exists>ev. trace (tryBatch api reqs r) = trace r @ [ev] \<and> requestsOf ev = reqs"
  by (cases "documents_batchUpdate api reqs (store r)") (simp_all add: tryBatch_def)

section \<open>Properties of the SectionPruner\<close>

lemma firstIndexFrom_Some:
  "firstIndexFrom P xs i = Some j \<Longrightarrow>
     i \<le> j \<and> j < i + length xs \<and> P (xs ! (j - i)) \<and> (\<forall>k < j - i. \<not> P (xs ! k))"
proof (induction xs arbitrary: i)
  case Nil
  then show ?case by simp
next
  case (Cons x xs)
  show ?case
  proof (cases "P x")
    case True
    with Cons.prems show ?thesis by simp
  next
    case False
    with Cons.prems have rec: "firstIndexFrom P xs (Suc i) = Some j" by simp
    from Cons.IH [OF rec] have ih: "Suc i \<le> j" "j < Suc i + length xs"
      "P (xs ! (j - Suc i))" "\<forall>k < j - Suc i. \<not> P (xs ! k)" by auto
    have "j - i = Suc (j - Suc i)" using ih(1) by arith
    then show ?thesis using ih False by (auto simp: nth_Cons split: nat.splits)
  qed
qed

lemma firstIndexFrom_None:
  "firstIndexFrom P xs i = None \<Longrightarrow> \<forall>k < length xs. \<not> P (xs ! k)"
proof (induction xs arbitrary: i)
  case Nil
  then show ?case by simp
next
  case (Cons x xs)
  then show ?case by (auto simp: nth_Cons split: if_splits nat.splits)
qed

lemma firstIndexFrom_first:
  "k < length xs \<Longrightarrow> P (xs ! k) \<Longrightarrow> \<forall>j < k. \<not> P (xs ! j) \<Longrightarrow> firstIndexFrom P xs i = Some (i + k)"
proof (induction xs arbitrary: i k)
  case Nil
  then show ?case by simp
next
  case (Cons x xs)
  show ?case
  proof (cases k)
    case 0
    with Cons.prems show ?thesis by simp
  next
    case (Suc k')
    with Cons.prems have "\<not> P x" by auto
    moreover have "firstIndexFrom P xs (Suc i) = Some (Suc i + k')"
      using Cons.prems Suc by (intro Cons.IH) auto
    ultimately show ?thesis using Suc by simp
  qed
qed

lemma sectionStart_Some:
  assumes "sectionStart content heading = Some s"
  shows "s < length content" "lineText (content ! s) = toUpperCase heading"
    "\<forall>i < s. lineText (content ! i) \<noteq> toUpperCase heading"
  using firstIndexFrom_Some [OF assms [unfolded sectionStart_def]] by auto

lemma sectionEnd_bounds:
  assumes "s < length content"
  shows "s \<le> sectionEnd content heading s" "sectionEnd content heading s < length content"
proof -
  let ?r = "firstIndexFrom (isOtherHeading heading) (drop (s + 1) content) (s + 1)"
  show "s \<le> sectionEnd content heading s"
  proof (cases ?r)
    case None
    then show ?thesis using assms by (simp add: sectionEnd_def)
  next
    case (Some j)
    from firstIndexFrom_Some [OF Some] have "s + 1 \<le> j" by simp
    then show ?thesis using Some by (simp add: sectionEnd_def)
  qed
  show "sectionEnd content heading s < length content"
  proof (cases ?r)
    case None
    then show ?thesis using assms by (simp add: sectionEnd_def)
  next
    case (Some j)
    from firstIndexFrom_Some [OF Some] have "j < s + 1 + length (drop (s + 1) content)" by simp
    then have "j - 1 < length content" using assms by simp
    then show ?thesis using Some by (simp add: sectionEnd_def)
  qed
qed

lemma sectionEnd_inside:
  assumes "s < k" "k \<le> sectionEnd content heading s" "s < length content"
  shows "\<not> isOtherHeading heading (content ! k)"
proof (cases "firstIndexFrom (isOtherHeading heading) (drop (s + 1) content) (s + 1)")
  case None
  then have e: "sectionEnd content heading s = length content - 1" by (simp add: sectionEnd_def)
  from firstIndexFrom_None [OF None] have "\<forall>m < length content - (s + 1). \<not> isOtherHeading heading (content ! (s + 1 + m))"
    by simp
  moreover have "k - (s + 1) < length content - (s + 1)" using assms e by arith
  ultimately have "\<not> isOtherHeading heading (content ! (s + 1 + (k - (s + 1))))" by blast
  then show ?thesis using assms by simp
next
  case (Some j)
  then have e: "sectionEnd content heading s = j - 1" by (simp add: sectionEnd_def)
  from firstIndexFrom_Some [OF Some] have j: "s + 1 \<le> j" "j < length content \<or> j < s + 1 + (length content - (s+1))"
    and no: "\<forall>m < j - (s + 1). \<not> isOtherHeading heading (drop (s + 1) content ! m)" by auto
  have "k - (s + 1) < j - (s + 1)" using assms e j by arith
  with no have "\<not> isOtherHeading heading (drop (s + 1) content ! (k - (s + 1)))" by blast
  moreover have "s + 1 + (k - (s + 1)) = k" using assms by arith
  ultimately show ?thesis using assms e j by (simp add: sectionEnd_bounds)
qed

lemma sectionEnd_next:
  assumes "sectionEnd content heading s + 1 < length content" "s < length content"
  shows "isOtherHeading heading (content ! (sectionEnd content heading s + 1))"
proof (cases "firstIndexFrom (isOtherHeading heading) (drop (s + 1) content) (s + 1)")
  case None
  then have "sectionEnd content heading s = length content - 1" by (simp add: sectionEnd_def)
  with assms show ?thesis by simp
next
  case (Some j)
  then have e: "sectionEnd content heading s = j - 1" by (simp add: sectionEnd_def)
  from firstIndexFrom_Some [OF Some] have j: "s + 1 \<le> j"
    and p: "isOtherHeading heading (drop (s + 1) content ! (j - (s + 1)))" by auto
  have "s + 1 + (j - (s + 1)) = j" using j by arith
  then have "isOtherHeading heading (content ! j)" using p assms e j by simp
  then show ?thesis using e j by simp
qed

lemma codeUnits_inject: "codeUnits a = codeUnits b \<longleftrightarrow> a = b"
proof
  assume "codeUnits a = codeUnits b"
  then show "a = b"
  proof (induction a arbitrary: b)
    case Nil
    then show ?case by (simp add: codeUnits_def)
  next
    case (Cons x xs)
    then obtain y ys where b: "b = y # ys" by (cases b) (auto simp: codeUnits_def)
    with Cons.prems have "(of_char x :: nat) = of_char y" "codeUnits xs = codeUnits ys"
      by (simp_all add: codeUnits_def)
    with Cons.IH b show ?case by simp
  qed
next
  assume "a = b"
  then show "codeUnits a = codeUnits b" by simp
qed

lemma getAllHeadings_upper: "h \<in> set getAllHeadings \<Longrightarrow> toUpperCase h = codeUnits h"
proof -
  have "list_all (\<lambda>h. toUpperCase h = codeUnits h) getAllHeadings" by code_simp
  then show "h \<in> set getAllHeadings \<Longrightarrow> toUpperCase h = codeUnits h"
    by (simp add: list_all_iff)
qed

lemma orderedPairs_nth:
  "i < j \<Longrightarrow> j < length xs \<Longrightarrow> (xs ! i, xs ! j) \<in> set (orderedPairs xs)"
proof (induction xs arbitrary: i j)
  case Nil
  then show ?case by simp
next
  case (Cons x xs)
  show ?case
  proof (cases i)
    case 0
    with Cons.prems obtain j' where "j = Suc j'" "j' < length xs" by (cases j) auto
    with 0 show ?thesis by auto
  next
    case (Suc i')
    with Cons.prems obtain j' where "j = Suc j'" "j' < length xs" "i' < j'" by (cases j) auto
    with Suc Cons.IH show ?thesis by auto
  qed
qed

lemma offsetsOrdered_nth:
  "offsetsOrdered content \<Longrightarrow> i < j \<Longrightarrow> j < length content \<Longrightarrow> endsBefore (content ! i) (content ! j)"
  using orderedPairs_nth [of i j content] by (auto simp: offsetsOrdered_def list_all_iff)

lemma truthyIndex_Some: "truthyIndex i = Some n \<Longrightarrow> i = Some n \<and> 0 < n"
  by (auto simp: truthyIndex_def split: option.splits if_splits)

lemma other_section_apart:
  assumes found: "sectionStart content heading = Some s"
    and decl: "heading \<in> set getAllHeadings" "h \<in> set getAllHeadings" "h \<noteq> heading"
    and sec: "inSection content h y k"
  shows "k < s \<or> sectionEnd content heading s < k"
proof -
  from sectionStart_Some [OF found] have s: "s < length content"
    and sh: "lineText (content ! s) = toUpperCase heading" by auto
  from sec have y: "y < length content" and yh: "lineText (content ! y) = toUpperCase h"
    and yk: "y \<le> k" and ke: "k \<le> sectionEnd content h y" by (auto simp: inSection_def)
  have up: "toUpperCase heading = codeUnits heading" "toUpperCase h = codeUnits h"
    using decl by (auto simp: getAllHeadings_upper)
  have y_other: "isOtherHeading heading (content ! y)"
    using yh up decl by (simp add: isOtherHeading_def codeUnits_inject)
  have s_other: "isOtherHeading h (content ! s)"
    using sh up decl by (auto simp: isOtherHeading_def codeUnits_inject)
  have y_not: "\<not> (s < y \<and> y \<le> sectionEnd content heading s)"
    using sectionEnd_inside [of s y content heading] y_other s by blast
  have "y \<noteq> s" using sh yh up decl by (auto simp: codeUnits_inject)
  show ?thesis
  proof (cases "y < s")
    case True
    have "\<not> (y < s \<and> s \<le> sectionEnd content h y)"
      using sectionEnd_inside [of y s content h] s_other y by blast
    with True ke show ?thesis by arith
  next
    case False
    with \<open>y \<noteq> s\<close> y_not yk show ?thesis by arith
  qed
qed

lemma removeSections_foldl:
  "removeSections api hs r = foldl (\<lambda>r h. removeSection api h r) r hs"
  by (induction hs arbitrary: r) simp_all

lemma removeSection_invalid:
  assumes content: "body_content (documents_get api (store r)) = Some content"
    and found: "sectionStart content heading = Some s"
    and none: "truthyIndex (startIndex (content ! s)) = None \<or>
       truthyIndex (endIndex (content ! sectionEnd content heading s)) = None"
  shows "removeSection api heading r = r"
proof -
  have "removeSectionRequests (documents_get api (store r)) heading = Inl InvalidRange"
    using content found none
    by (auto simp: removeSectionRequests_def Let_def split: option.splits)
  then show ?thesis by (simp add: removeSection_def)
qed

lemma removeSection_valid:
  assumes content: "body_content (documents_get api (store r)) = Some content"
    and found: "sectionStart content heading = Some s"
    and a: "truthyIndex (startIndex (content ! s)) = Some a"
    and b: "truthyIndex (endIndex (content ! sectionEnd content heading s)) = Some b"
  shows "removeSection api heading r = tryBatch api [DeleteContentRange a b] r"
proof -
  have "removeSectionRequests (documents_get api (store r)) heading = Inr [DeleteContentRange a b]"
    using content found a b by (simp add: removeSectionRequests_def Let_def)
  then show ?thesis by (simp add: removeSection_def)
qed

text \<open>
  Claim C1, as amended. Let the snapshot the pruner reads have content, and let \<open>s\<close> be
  the first block whose normalized text is the heading: it is the block the pruner
  finds. The span of the section ends at
  \<open>sectionEnd\<close>, the last block before the next block that is another declared heading,
  or the last block of the document when none follows. When the block \<open>s\<close> carries a
  start offset \<open>a\<close> and the block at \<open>sectionEnd\<close> an end offset \<open>b\<close> (both present and not
  0), the pruner sends exactly one batch, the deletion of \<open>[a, b)\<close>, inside \<^verbatim>\<open>try\<close>; no
  block of the section of another declared heading lies in the deleted span of blocks,
  nor, when the offsets of the snapshot are ordered, do its characters lie in the
  deleted range. When one of the two offsets is missing or 0, the pruner sends nothing.
  The pruner does this for the headings of the sections whose presence check is false,
  in the order of the table, each on the run the one before has left.
\<close>

theorem removeSection_deletes_section:
  assumes content: "body_content (documents_get api (store r)) = Some content"
    and s: "s < length content" and sh: "lineText (content ! s) = toUpperCase heading"
    and first: "\<forall>i < s. lineText (content ! i) \<noteq> toUpperCase heading"
  shows "sectionStart content heading = Some s \<and>
    s \<le> sectionEnd content heading s \<and> sectionEnd content heading s < length content \<and>
    (\<forall>k. s < k \<and> k \<le> sectionEnd content heading s \<longrightarrow> \<not> isOtherHeading heading (content ! k)) \<and>
    (sectionEnd content heading s + 1 < length content \<longrightarrow>
       isOtherHeading heading (content ! (sectionEnd content heading s + 1))) \<and>
    (startIndex (content ! s) = None \<or> startIndex (content ! s) = Some 0 \<or>
     endIndex (content ! sectionEnd content heading s) = None \<or>
     endIndex (content ! sectionEnd content heading s) = Some 0 \<longrightarrow>
       removeSection api heading r = r) \<and>
    (\<forall>a b. startIndex (content ! s) = Some a \<and> 0 < a \<and>
         endIndex (content ! sectionEnd content heading s) = Some b \<and> 0 < b \<longrightarrow>
       removeSection api heading r = tryBatch api [DeleteContentRange a b] r \<and>
       (\<exists>ev. trace (removeSection api heading r) = trace r @ [ev] \<and>
          requestsOf ev = [DeleteContentRange a b]) \<and>
       (\<forall>h y k. heading \<in> set getAllHeadings \<and> h \<in> set getAllHeadings \<and> h \<noteq> heading \<and>
          inSection content h y k \<longrightarrow>
            (k < s \<or> sectionEnd content heading s < k) \<and>
            (offsetsOrdered content \<longrightarrow> outsideRange a b (content ! k)))) \<and>
    removeEmptySections api d r =
      foldl (\<lambda>r h. removeSection api h r) r
        (map fst (filter (\<lambda>section. \<not> snd section d) RESUME_SECTIONS))"
proof -
  let ?e = "sectionEnd content heading s"
  from firstIndexFrom_first [of s content "\<lambda>item. lineText item = toUpperCase heading" 0, OF s sh]
    first
  have found: "sectionStart content heading = Some s" by (simp add: sectionStart_def)
  from sectionEnd_bounds [OF s] have e: "s \<le> ?e" "?e < length content" by auto
  have inside: "\<forall>k. s < k \<and> k \<le> ?e \<longrightarrow> \<not> isOtherHeading heading (content ! k)"
    using sectionEnd_inside s by blast
  have nxt: "?e + 1 < length content \<longrightarrow> isOtherHeading heading (content ! (?e + 1))"
    using sectionEnd_next s by blast
  have invalid: "startIndex (content ! s) = None \<or> startIndex (content ! s) = Some 0 \<or>
      endIndex (content ! ?e) = None \<or> endIndex (content ! ?e) = Some 0 \<longrightarrow>
      removeSection api heading r = r"
  proof
    assume "startIndex (content ! s) = None \<or> startIndex (content ! s) = Some 0 \<or>
      endIndex (content ! ?e) = None \<or> endIndex (content ! ?e) = Some 0"
    then have "truthyIndex (startIndex (content ! s)) = None \<or>
        truthyIndex (endIndex (content ! ?e)) = None"
      by (auto simp: truthyIndex_def)
    then show "removeSection api heading r = r" by (rule removeSection_invalid [OF content found])
  qed
  have valid: "removeSection api heading r = tryBatch api [DeleteContentRange a b] r \<and>
      (\<exists>ev. trace (removeSection api heading r) = trace r @ [ev] \<and>
         requestsOf ev = [DeleteContentRange a b]) \<and>
      (\<forall>h y k. heading \<in> set getAllHeadings \<and> h \<in> set getAllHeadings \<and> h \<noteq> heading \<and>
         inSection content h y k \<longrightarrow>
           (k < s \<or> ?e < k) \<and> (offsetsOrdered content \<longrightarrow> outsideRange a b (content ! k)))"
    if a0: "startIndex (content ! s) = Some a" "0 < a"
      and b0: "endIndex (content ! ?e) = Some b" "0 < b" for a b
  proof -
    from a0 have a: "truthyIndex (startIndex (content ! s)) = Some a" by (simp add: truthyIndex_def)
    from b0 have b: "truthyIndex (endIndex (content ! ?e)) = Some b" by (simp add: truthyIndex_def)
    have req: "removeSection api heading r = tryBatch api [DeleteContentRange a b] r"
      by (rule removeSection_valid [OF content found a b])
    from tryBatch_trace [of api "[DeleteContentRange a b]" r]
    have ev: "\<exists>ev. trace (removeSection api heading r) = trace r @ [ev] \<and>
        requestsOf ev = [DeleteContentRange a b]" unfolding req .
    have apart: "(k < s \<or> ?e < k) \<and> (offsetsOrdered content \<longrightarrow> outsideRange a b (content ! k))"
      if decl: "heading \<in> set getAllHeadings" "h \<in> set getAllHeadings" "h \<noteq> heading"
        and sec: "inSection content h y k" for h y k
    proof -
      have out: "k < s \<or> ?e < k" using other_section_apart [OF found decl sec] .
      have klen: "k < length content"
        using sec sectionEnd_bounds [of y content h] by (auto simp: inSection_def)
      have "outsideRange a b (content ! k)" if ord: "offsetsOrdered content"
      proof (cases "k < s")
        case True
        from offsetsOrdered_nth [OF ord True s] truthyIndex_Some [OF a]
        show ?thesis by (auto simp: endsBefore_def outsideRange_def split: option.splits)
      next
        case False
        with out have "?e < k" by simp
        from offsetsOrdered_nth [OF ord this klen] truthyIndex_Some [OF b]
        show ?thesis by (auto simp: endsBefore_def outsideRange_def split: option.splits)
      qed
      with out show ?thesis by simp
    qed
    from req ev apart show ?thesis by blast
  qed
  have all: "removeEmptySections api d r =
      foldl (\<lambda>r h. removeSection api h r) r
        (map fst (filter (\<lambda>section. \<not> snd section d) RESUME_SECTIONS))"
    by (simp only: removeEmptySections_def removeSections_foldl)
  from found e inside nxt invalid valid all show ?thesis by blast
qed

text \<open>
  The theorem on the reference store, at a body of three sections: the section PROJECTS
  is the blocks 3 to 5, the pruner deletes \<open>[17, 35)\<close>, and the body of EDUCATION (block 7)
  lies outside.
\<close>

theorem removeSection_deletes_section_witness:
  "body_content (documents_get memoryStore (store (start (plain threeSectionsBody)))) =
     Some threeSectionsBlocks \<and>
   sectionStart threeSectionsBlocks ''PROJECTS'' = Some 3 \<and>
   sectionEnd threeSectionsBlocks ''PROJECTS'' 3 = 5 \<and>
   removeSection memoryStore ''PROJECTS'' (start (plain threeSectionsBody)) =
     \<lparr>store = plain ''Experience\<newline>Acme\<newline>EDUCATION\<newline>MIT\<newline>'',
      trace = [Sent [DeleteContentRange 17 35]]\<rparr> \<and>
   inSection threeSectionsBlocks ''EDUCATION'' 6 7 \<and>
   offsetsOrdered threeSectionsBlocks \<and>
   outsideRange 17 35 (threeSectionsBlocks ! 7)"
proof -
  let ?r = "start (plain threeSectionsBody)"
  have c: "body_content (documents_get memoryStore (store ?r)) = Some threeSectionsBlocks"
    by (simp add: memoryStore_def start_def render_def threeSectionsBlocks_def)
  have f: "sectionStart threeSectionsBlocks ''PROJECTS'' = Some 3" by code_simp
  have e: "sectionEnd threeSectionsBlocks ''PROJECTS'' 3 = 5" by code_simp
  have a: "startIndex (threeSectionsBlocks ! 3) = Some 17 \<and> (0 :: nat) < 17" by code_simp
  have b: "endIndex (threeSectionsBlocks ! sectionEnd threeSectionsBlocks ''PROJECTS'' 3) = Some 35 \<and>
      (0 :: nat) < 35"
    by code_simp
  have h: "''PROJECTS'' \<in> set getAllHeadings" "''EDUCATION'' \<in> set getAllHeadings"
    by (simp_all add: getAllHeadings_def RESUME_SECTIONS_def)
  have s: "inSection threeSectionsBlocks ''EDUCATION'' 6 7" by code_simp
  have o: "offsetsOrdered threeSectionsBlocks" by code_simp
  have ne: "''EDUCATION'' \<noteq> ''PROJECTS''" by simp
  have p: "3 < length threeSectionsBlocks"
    "lineText (threeSectionsBlocks ! 3) = toUpperCase ''PROJECTS''"
    "\<forall>i < 3. lineText (threeSectionsBlocks ! i) \<noteq> toUpperCase ''PROJECTS''"
    using sectionStart_Some [OF f] by blast+
  note T = removeSection_deletes_section [OF c p]
  from T a b have "removeSection memoryStore ''PROJECTS'' ?r = tryBatch memoryStore [DeleteContentRange 17 35] ?r"
    by blast
  moreover have "tryBatch memoryStore [DeleteContentRange 17 35] ?r =
      \<lparr>store = plain ''Experience\<newline>Acme\<newline>EDUCATION\<newline>MIT\<newline>'',
       trace = [Sent [DeleteContentRange 17 35]]\<rparr>" by code_simp
  ultimately have r: "removeSection memoryStore ''PROJECTS'' ?r =
      \<lparr>store = plain ''Experience\<newline>Acme\<newline>EDUCATION\<newline>MIT\<newline>'',
       trace = [Sent [DeleteContentRange 17 35]]\<rparr>" by (rule trans)
  from T a b h s o ne have "outsideRange 17 35 (threeSectionsBlocks ! 7)" by blast
  with c f e r s o show ?thesis by (intro conjI)
qed

text \<open>
  Claim C1 as stated fails: the heading block is found, it carries no start offset, and
  the pruner sends no request.
\<close>

theorem removeSection_missing_offset:
  "sectionStart headingWithoutStart ''PROJECTS'' = Some 0 \<and>
   removeSectionRequests \<lparr>body_content = Some headingWithoutStart\<rparr> ''PROJECTS'' = Inl InvalidRange \<and>
   removeSection (constStore \<lparr>body_content = Some headingWithoutStart\<rparr>) ''PROJECTS''
     \<lparr>store = (), trace = []\<rparr> = \<lparr>store = (), trace = []\<rparr>"
  by code_simp

section \<open>Properties of the EmptyLineSweeper\<close>

lemma trim_last: "trim s \<noteq> [] \<Longrightarrow> \<not> isWhiteSpace (last (trim s))"
proof -
  assume ne: "trim s \<noteq> []"
  let ?u = "dropWhile isWhiteSpace (rev (dropWhile isWhiteSpace s))"
  from ne have u: "?u \<noteq> []" by (simp add: trim_def)
  then have "\<not> isWhiteSpace (hd ?u)" by (rule hd_dropWhile)
  moreover have "last (trim s) = hd ?u" using u by (simp add: trim_def last_rev)
  ultimately show ?thesis by simp
qed

lemma trim_hd: "trim s \<noteq> [] \<Longrightarrow> \<not> isWhiteSpace (hd (trim s))"
proof -
  assume ne: "trim s \<noteq> []"
  let ?t = "dropWhile isWhiteSpace s"
  let ?u = "dropWhile isWhiteSpace (rev ?t)"
  from ne have u: "?u \<noteq> []" by (simp add: trim_def)
  have t: "?t \<noteq> []"
  proof
    assume "?t = []"
    then have "?u = []" by (metis dropWhile.simps(1) rev.simps(1))
    with u show False by (simp only:)
  qed
  have "hd (trim s) = last ?u" using u by (simp add: trim_def hd_rev)
  also have "last ?u = last (rev ?t)"
  proof -
    have "rev ?t = takeWhile isWhiteSpace (rev ?t) @ ?u" by simp
    then show ?thesis using u by (metis last_appendR)
  qed
  also have "\<dots> = hd ?t" using t by (simp add: last_rev)
  finally have "hd (trim s) = hd ?t" .
  moreover have "\<not> isWhiteSpace (hd ?t)" using t by (rule hd_dropWhile)
  ultimately show ?thesis by simp
qed

lemma isBar_iff: "trim s \<in> set [''|'', ''| '', '' |'', '' | ''] \<longleftrightarrow> trim s = ''|''"
proof -
  have "trim s \<noteq> ''| ''" using trim_last [of s] by (auto simp: isWhiteSpace_def)
  moreover have "trim s \<noteq> '' |''" using trim_hd [of s] by (auto simp: isWhiteSpace_def)
  moreover have "trim s \<noteq> '' | ''" using trim_hd [of s] by (auto simp: isWhiteSpace_def)
  ultimately show ?thesis by auto
qed

lemma closest_skip:
  "\<not> eligible item \<Longrightarrow> closest t (item # items) best = closest t items best"
  by (cases "se_paragraph item"; cases "startIndex item"; cases "endIndex item")
     (simp_all add: eligible_def)

lemma closest_first:
  "eligible item \<Longrightarrow> startIndex item = Some s \<Longrightarrow>
     closest t (item # items) None = closest t items (Some (item, absDiff s t))"
  by (cases "se_paragraph item"; cases "endIndex item") (simp_all add: eligible_def)

lemma closest_better:
  "eligible item \<Longrightarrow> startIndex item = Some s \<Longrightarrow> absDiff s t < bd \<Longrightarrow>
     closest t (item # items) (Some (b, bd)) = closest t items (Some (item, absDiff s t))"
  by (cases "se_paragraph item"; cases "endIndex item") (simp_all add: eligible_def)

lemma closest_keep:
  "eligible item \<Longrightarrow> startIndex item = Some s \<Longrightarrow> \<not> absDiff s t < bd \<Longrightarrow>
     closest t (item # items) (Some (b, bd)) = closest t items (Some (b, bd))"
  by (cases "se_paragraph item"; cases "endIndex item") (simp_all add: eligible_def)

lemma closest_result:
  "closest t items best = Some (m, d) \<Longrightarrow> best = Some (m, d) \<or> (m \<in> set items \<and> eligible m)"
proof (induction items arbitrary: best)
  case Nil
  then show ?case by simp
next
  case (Cons item items)
  show ?case
  proof (cases "eligible item")
    case False
    from closest_skip [OF False, of t items best] Cons.prems
    have "closest t items best = Some (m, d)" by metis
    from Cons.IH [OF this] show ?thesis by auto
  next
    case True
    then obtain s where s: "startIndex item = Some s" by (auto simp: eligible_def)
    show ?thesis
    proof (cases best)
      case None
      with Cons.prems closest_first [OF True s, of t items]
      have "closest t items (Some (item, absDiff s t)) = Some (m, d)" by metis
      from Cons.IH [OF this] True show ?thesis by auto
    next
      case (Some bb)
      obtain b bd where bb: "bb = (b, bd)" by (cases bb)
      show ?thesis
      proof (cases "absDiff s t < bd")
        case lt: True
        from closest_better [OF True s lt, of items b] Cons.prems Some bb
        have "closest t items (Some (item, absDiff s t)) = Some (m, d)" by metis
        from Cons.IH [OF this] True show ?thesis by auto
      next
        case ge: False
        from closest_keep [OF True s ge, of items b] Cons.prems Some bb
        have "closest t items best = Some (m, d)" by metis
        from Cons.IH [OF this] show ?thesis by auto
      qed
    qed
  qed
qed

lemma closest_zero: "closest t items (Some (m, 0)) = Some (m, 0)"
proof (induction items)
  case Nil
  then show ?case by simp
next
  case (Cons item items)
  show ?case
  proof (cases "eligible item")
    case False
    from closest_skip [OF False, of t items "Some (m, 0)"] Cons.IH show ?thesis by metis
  next
    case True
    then obtain s where s: "startIndex item = Some s" by (auto simp: eligible_def)
    have "\<not> absDiff s t < 0" by simp
    from closest_keep [OF True s this, of items m] Cons.IH show ?thesis by metis
  qed
qed


lemma closest_exact:
  assumes "item \<in> set items" "eligible item" "startIndex item = Some t"
    and "\<forall>x \<in> set items. startIndex x = Some t \<longrightarrow> x = item"
    and "best = None \<or> (\<exists>b bd. best = Some (b, bd) \<and> 0 < bd)"
  shows "closest t items best = Some (item, 0)"
  using assms
proof (induction items arbitrary: best)
  case Nil
  from Nil.prems(1) show ?case by simp
next
  case (Cons x xs)
  note el = \<open>eligible item\<close> and st = \<open>startIndex item = Some t\<close>
  show ?case
  proof (cases "x = item")
    case True
    have z: "absDiff t t = 0" by (simp add: absDiff_def)
    from Cons.prems(5) show ?thesis
    proof
      assume n: "best = None"
      have "closest t (x # xs) best = closest t xs (Some (item, absDiff t t))"
        unfolding n True by (rule closest_first [OF el st])
      also have "\<dots> = Some (item, 0)" unfolding z by (rule closest_zero)
      finally show ?thesis .
    next
      assume "\<exists>b bd. best = Some (b, bd) \<and> 0 < bd"
      then obtain b bd where b: "best = Some (b, bd)" and bd: "0 < bd" by blast
      from bd have lt: "absDiff t t < bd" unfolding z .
      have "closest t (x # xs) best = closest t xs (Some (item, absDiff t t))"
        unfolding b True by (rule closest_better [OF el st lt])
      also have "\<dots> = Some (item, 0)" unfolding z by (rule closest_zero)
      finally show ?thesis .
    qed
  next
    case False
    from Cons.prems(1) False have mem: "item \<in> set xs" by simp
    from Cons.prems(4) False have ne: "startIndex x \<noteq> Some t" by auto
    from Cons.prems(4) have uniq: "\<forall>y \<in> set xs. startIndex y = Some t \<longrightarrow> y = item" by simp
    note IH = Cons.IH [OF mem el st uniq]
    show ?thesis
    proof (cases "eligible x")
      case False
      have "closest t (x # xs) best = closest t xs best" by (rule closest_skip [OF False])
      also have "\<dots> = Some (item, 0)" by (rule IH [OF Cons.prems(5)])
      finally show ?thesis .
    next
      case True
      then obtain s where s: "startIndex x = Some s" by (auto simp: eligible_def)
      with ne have "s \<noteq> t" by simp
      then have pos: "0 < absDiff s t" by (simp add: absDiff_def)
      have new: "closest t xs (Some (x, absDiff s t)) = Some (item, 0)"
      proof (rule IH)
        show "Some (x, absDiff s t) = None \<or> (\<exists>b bd. Some (x, absDiff s t) = Some (b, bd) \<and> 0 < bd)"
          using pos by simp
      qed
      from Cons.prems(5) show ?thesis
      proof
        assume n: "best = None"
        have "closest t (x # xs) best = closest t xs (Some (x, absDiff s t))"
          unfolding n by (rule closest_first [OF True s])
        with new show ?thesis by (simp only:)
      next
        assume "\<exists>b bd. best = Some (b, bd) \<and> 0 < bd"
        then obtain b bd where b: "best = Some (b, bd)" and bd: "0 < bd" by blast
        show ?thesis
        proof (cases "absDiff s t < bd")
          case lt: True
          have "closest t (x # xs) best = closest t xs (Some (x, absDiff s t))"
            unfolding b by (rule closest_better [OF True s lt])
          with new show ?thesis by (simp only:)
        next
          case ge: False
          have "closest t (x # xs) best = closest t xs best"
            unfolding b by (rule closest_keep [OF True s ge])
          also have "\<dots> = Some (item, 0)" by (rule IH [OF Cons.prems(5)])
          finally show ?thesis .
        qed
      qed
    qed
  qed
qed

lemma nth_startOffsets:
  "k < length xs \<Longrightarrow> startIndex (xs ! k) = Some t \<Longrightarrow> t \<in> set (startOffsets xs)"
proof (induction xs arbitrary: k)
  case Nil
  then show ?case by simp
next
  case (Cons x xs)
  show ?case
  proof (cases k)
    case 0
    with Cons.prems show ?thesis by (simp add: startOffsets_def)
  next
    case (Suc k')
    with Cons.prems have "t \<in> set (startOffsets xs)" by (intro Cons.IH [of k']) auto
    then show ?thesis by (auto simp: startOffsets_def split: option.splits)
  qed
qed

lemma startOffsets_distinct:
  assumes "distinct (startOffsets content)" "i < length content" "j < length content"
    "startIndex (content ! i) = Some t" "startIndex (content ! j) = Some t"
  shows "i = j"
  using assms
proof (induction content arbitrary: i j)
  case Nil
  then show ?case by simp
next
  case (Cons x xs)
  have mem: "t \<in> set (startOffsets xs)" if "k < length xs" "startIndex (xs ! k) = Some t" for k
    using that by (rule nth_startOffsets)
  have d: "distinct (startOffsets xs)"
    using Cons.prems(1) by (auto simp: startOffsets_def map_filter_simps split: option.splits)
  have hd: "t \<notin> set (startOffsets xs)" if "startIndex x = Some t"
    using Cons.prems(1) that by (auto simp: startOffsets_def map_filter_simps)
  show ?case
  proof (cases i)
    case 0
    show ?thesis
    proof (cases j)
      case 0
      with \<open>i = 0\<close> show ?thesis by simp
    next
      case (Suc j')
      with Cons.prems 0 mem [of j'] hd show ?thesis by auto
    qed
  next
    case (Suc i')
    show ?thesis
    proof (cases j)
      case 0
      with Cons.prems Suc mem [of i'] hd show ?thesis by auto
    next
      case (Suc j')
      with Cons.prems \<open>i = Suc i'\<close> Cons.IH [OF d, of i' j'] show ?thesis by auto
    qed
  qed
qed

lemma someHeading_iff: "someHeading hl text \<longleftrightarrow> text \<in> set (map toUpperCase hl)"
  by (auto simp: someHeading_def list_ex_iff)

lemma findIndex_own:
  assumes d: "distinct (startOffsets content)" and i: "i < length content"
    and s: "startIndex (content ! i) = Some s"
  shows "firstIndexFrom (\<lambda>x. startIndex x = startIndex (content ! i)) content 0 = Some i"
proof -
  have "\<forall>j < i. \<not> startIndex (content ! j) = startIndex (content ! i)"
  proof (intro allI impI notI)
    fix j assume j: "j < i" and eq: "startIndex (content ! j) = startIndex (content ! i)"
    from j i have "j < length content" by simp
    from startOffsets_distinct [OF d this i] eq s j show False by simp
  qed
  from firstIndexFrom_first [of i content "\<lambda>x. startIndex x = startIndex (content ! i)" 0, OF i refl this]
  show ?thesis by simp
qed

lemma after_heading_own:
  assumes "body_content doc = Some content" "distinct (startOffsets content)" "i < length content"
    "startIndex (content ! i) = Some s"
  shows "isImmediatelyAfterHeading doc (content ! i) hl \<longleftrightarrow>
     0 < i \<and> retainedHeading hl (content ! (i - 1))"
  using assms(1) findIndex_own [OF assms(2-4)]
  by (simp add: isImmediatelyAfterHeading_def someHeading_iff retainedHeading_def)

lemma before_heading_own:
  assumes "body_content doc = Some content" "distinct (startOffsets content)" "i < length content"
    "startIndex (content ! i) = Some s"
  shows "isImmediatelyBeforeHeading doc (content ! i) hl \<longleftrightarrow>
     i + 1 < length content \<and> retainedHeading hl (content ! (i + 1))"
proof -
  have "(length content - 1 \<le> i) = (\<not> i + 1 < length content)" using assms(3) by arith
  then show ?thesis
    using assms(1) findIndex_own [OF assms(2-4)]
    by (simp add: isImmediatelyBeforeHeading_def someHeading_iff retainedHeading_def)
qed

lemma sweepRequests_match:
  assumes c: "body_content doc = Some content" and d: "distinct (startOffsets content)"
    and i: "i < length content"
    and s: "startIndex (content ! i) = Some s" and e: "endIndex (content ! i) = Some e"
    and m: "findParagraphByRange doc (fst p) (snd p) = Some (content ! i)"
  shows "sweepRequests doc hl p =
     (if blankOrBar (content ! i) \<and> \<not> adjacentToHeading content hl i
      then [DeleteContentRange s e] else [])"
proof -
  have bar: "(trim (getParagraphText (content ! i)) \<noteq> [] \<and>
      trim (getParagraphText (content ! i)) \<notin> set [''|'', ''| '', '' |'', '' | '']) =
     (\<not> blankOrBar (content ! i))"
    unfolding isBar_iff by (simp add: blankOrBar_def)
  show ?thesis
    unfolding sweepRequests_def m option.case Let_def bar
      after_heading_own [OF c d i s] before_heading_own [OF c d i s] s e
    by (simp add: adjacentToHeading_def orZero_def)
qed

lemma findParagraphByRange_some:
  assumes c: "body_content doc = Some content"
    and m: "findParagraphByRange doc a b = Some m"
  shows "\<exists>i s e. i < length content \<and> content ! i = m \<and> startIndex m = Some s \<and> endIndex m = Some e"
proof -
  from m c obtain d where "closest a content None = Some (m, d)"
    by (auto simp: findParagraphByRange_def)
  from closest_result [OF this] have "m \<in> set content" "eligible m" by auto
  then show ?thesis by (auto simp: in_set_conv_nth eligible_def)
qed

lemma findParagraphByRange_own:
  assumes c: "body_content doc = Some content" and d: "distinct (startOffsets content)"
    and i: "i < length content" and r: "paragraphRange (content ! i) = Some (s, e)"
  shows "findParagraphByRange doc s e = Some (content ! i)"
proof -
  from r have s: "startIndex (content ! i) = Some s" and el: "eligible (content ! i)"
    by (auto simp: paragraphRange_def paragraphElements_def eligible_def split: option.splits)
  have mem: "content ! i \<in> set content" using i by simp
  have uniq: "\<forall>x \<in> set content. startIndex x = Some s \<longrightarrow> x = content ! i"
  proof (intro ballI impI)
    fix x assume "x \<in> set content" and xs: "startIndex x = Some s"
    then obtain j where j: "j < length content" "content ! j = x" by (auto simp: in_set_conv_nth)
    from startOffsets_distinct [OF d j(1) i] xs s j(2) show "x = content ! i" by simp
  qed
  have "closest s content None = Some (content ! i, 0)"
    by (rule closest_exact [OF mem el s uniq]) simp
  then show ?thesis using c by (simp add: findParagraphByRange_def)
qed

lemma collectParagraphs_mem:
  "i < length content \<Longrightarrow> paragraphRange (content ! i) = Some p \<Longrightarrow> p \<in> set (collectParagraphs content)"
proof (induction content arbitrary: i)
  case Nil
  then show ?case by simp
next
  case (Cons x xs)
  show ?case
  proof (cases i)
    case 0
    with Cons.prems show ?thesis by (simp add: collectParagraphs_def)
  next
    case (Suc i')
    with Cons.prems have "p \<in> set (collectParagraphs xs)" by (intro Cons.IH [of i']) auto
    then show ?thesis by (auto simp: collectParagraphs_def split: option.splits)
  qed
qed

lemma sortDesc_set: "set (sortDesc ps) = set ps"
proof -
  have ins: "set (insertDesc p qs) = insert p (set qs)" for p qs
    by (induction qs) auto
  show ?thesis unfolding sortDesc_def by (induction ps) (simp_all add: ins)
qed

lemma sweepRequests_cases:
  assumes c: "body_content doc = Some content" and d: "distinct (startOffsets content)"
  shows "sweepRequests doc hl p = [] \<or>
     (\<exists>i s e. i < length content \<and> startIndex (content ! i) = Some s \<and>
        endIndex (content ! i) = Some e \<and> blankOrBar (content ! i) \<and>
        \<not> adjacentToHeading content hl i \<and> sweepRequests doc hl p = [DeleteContentRange s e])"
proof (cases "findParagraphByRange doc (fst p) (snd p)")
  case None
  then show ?thesis by (simp add: sweepRequests_def)
next
  case (Some m)
  from findParagraphByRange_some [OF c Some] obtain i s e where i: "i < length content"
    and mi: "content ! i = m" and s: "startIndex m = Some s" and e: "endIndex m = Some e" by blast
  from Some mi have m': "findParagraphByRange doc (fst p) (snd p) = Some (content ! i)" by simp
  from s e mi have s': "startIndex (content ! i) = Some s" and e': "endIndex (content ! i) = Some e"
    by simp_all
  note eq = sweepRequests_match [OF c d i s' e' m', of hl]
  show ?thesis
  proof (cases "blankOrBar (content ! i) \<and> \<not> adjacentToHeading content hl i")
    case True
    with eq have "sweepRequests doc hl p = [DeleteContentRange s e]" by simp
    with True i s' e' show ?thesis by blast
  next
    case False
    with eq have "sweepRequests doc hl p = []" by simp
    then show ?thesis by simp
  qed
qed

lemma sweepRequests_own:
  assumes c: "body_content doc = Some content" and d: "distinct (startOffsets content)"
    and i: "i < length content" and r: "paragraphRange (content ! i) = Some (s, e)"
    and b: "blankOrBar (content ! i)"
  shows "sweepRequests doc hl (s, e) =
     (if adjacentToHeading content hl i then [] else [DeleteContentRange s e])"
proof -
  from r have s: "startIndex (content ! i) = Some s" and e: "endIndex (content ! i) = Some e"
    by (auto simp: paragraphRange_def split: option.splits)
  have m: "findParagraphByRange doc (fst (s, e)) (snd (s, e)) = Some (content ! i)"
    using findParagraphByRange_own [OF c d i r] by simp
  from sweepRequests_match [OF c d i s e m, of hl] b show ?thesis by simp
qed

lemma sweepLoop_no_content:
  "body_content (documents_get api (store r)) = None \<Longrightarrow> sweepLoop api hl ps r = r"
  by (cases ps) simp_all

text \<open>The runs of the loop, one before each turn and the last one after the loop.\<close>

lemma sweepLoop_runs:
  "\<exists>rs. length rs = Suc (length ps) \<and> rs ! 0 = r \<and> rs ! length ps = sweepLoop api hl ps r \<and>
     (\<forall>k < length ps. rs ! Suc k =
        (case body_content (documents_get api (store (rs ! k))) of
           None \<Rightarrow> rs ! k
         | Some content \<Rightarrow>
             (case sweepRequests (documents_get api (store (rs ! k))) hl (ps ! k) of
                [] \<Rightarrow> rs ! k
              | req # reqs \<Rightarrow> tryBatch api (req # reqs) (rs ! k))))"
proof (induction ps arbitrary: r)
  case Nil
  have "length [r] = Suc (length ([] :: (nat \<times> nat) list)) \<and> [r] ! 0 = r \<and>
      [r] ! length ([] :: (nat \<times> nat) list) = sweepLoop api hl [] r" by simp
  then show ?case by (intro exI [of _ "[r]"]) simp
next
  case (Cons p ps)
  let ?doc = "documents_get api (store r)"
  let ?r1 = "case body_content ?doc of
       None \<Rightarrow> r
     | Some content \<Rightarrow>
         (case sweepRequests ?doc hl p of
            [] \<Rightarrow> r
          | req # reqs \<Rightarrow> tryBatch api (req # reqs) r)"
  have step: "sweepLoop api hl (p # ps) r = sweepLoop api hl ps ?r1"
  proof (cases "body_content ?doc")
    case None
    then show ?thesis by (simp add: sweepLoop_no_content)
  next
    case (Some content)
    then show ?thesis by (cases "sweepRequests ?doc hl p") (simp_all add: Let_def)
  qed
  from Cons.IH [of ?r1] obtain rs where l: "length rs = Suc (length ps)" and h: "rs ! 0 = ?r1"
    and e: "rs ! length ps = sweepLoop api hl ps ?r1"
    and t: "\<forall>k < length ps. rs ! Suc k =
        (case body_content (documents_get api (store (rs ! k))) of
           None \<Rightarrow> rs ! k
         | Some content \<Rightarrow>
             (case sweepRequests (documents_get api (store (rs ! k))) hl (ps ! k) of
                [] \<Rightarrow> rs ! k
              | req # reqs \<Rightarrow> tryBatch api (req # reqs) (rs ! k)))" by blast
  let ?rs = "r # rs"
  have a: "length ?rs = Suc (length (p # ps))" using l by simp
  have b: "?rs ! 0 = r" by simp
  have c: "?rs ! length (p # ps) = sweepLoop api hl (p # ps) r" using e step by simp
  have d: "?rs ! Suc k =
        (case body_content (documents_get api (store (?rs ! k))) of
           None \<Rightarrow> ?rs ! k
         | Some content \<Rightarrow>
             (case sweepRequests (documents_get api (store (?rs ! k))) hl ((p # ps) ! k) of
                [] \<Rightarrow> ?rs ! k
              | req # reqs \<Rightarrow> tryBatch api (req # reqs) (?rs ! k)))" if k: "k < length (p # ps)" for k
  proof (cases k)
    case 0
    show ?thesis unfolding 0 nth_Cons_0 nth_Cons_Suc by (rule h)
  next
    case (Suc k')
    with k have "k' < length ps" by simp
    with t have x: "rs ! Suc k' =
        (case body_content (documents_get api (store (rs ! k'))) of
           None \<Rightarrow> rs ! k'
         | Some content \<Rightarrow>
             (case sweepRequests (documents_get api (store (rs ! k'))) hl (ps ! k') of
                [] \<Rightarrow> rs ! k'
              | req # reqs \<Rightarrow> tryBatch api (req # reqs) (rs ! k')))" by blast
    show ?thesis unfolding Suc nth_Cons_Suc by (rule x)
  qed
  from a b c d show ?case by (intro exI [of _ ?rs]) blast
qed

lemma collectParagraphs_iff:
  "p \<in> set (collectParagraphs content) \<longleftrightarrow>
     (\<exists>i < length content. paragraphRange (content ! i) = Some p)"
proof
  assume "p \<in> set (collectParagraphs content)"
  then obtain x where "x \<in> set content" "paragraphRange x = Some p"
    by (auto simp: collectParagraphs_def map_filter_def)
  then show "\<exists>i < length content. paragraphRange (content ! i) = Some p"
    by (metis in_set_conv_nth)
next
  assume "\<exists>i < length content. paragraphRange (content ! i) = Some p"
  then show "p \<in> set (collectParagraphs content)" using collectParagraphs_mem by blast
qed

lemma insertDesc_set: "set (insertDesc p qs) = insert p (set qs)"
  by (induction qs) auto

lemma insertDesc_sorted:
  "sorted_wrt (\<lambda>p q. fst q \<le> fst p) qs \<Longrightarrow> sorted_wrt (\<lambda>p q. fst q \<le> fst p) (insertDesc p qs)"
proof (induction qs)
  case Nil
  then show ?case by simp
next
  case (Cons q qs)
  show ?case
  proof (cases "fst q \<le> fst p")
    case True
    with Cons.prems show ?thesis by auto
  next
    case False
    with Cons show ?thesis by (auto simp: insertDesc_set)
  qed
qed

lemma sortDesc_sorted: "sorted_wrt (\<lambda>p q. fst q \<le> fst p) (sortDesc ps)"
  unfolding sortDesc_def by (induction ps) (simp_all add: insertDesc_sorted)

lemma paragraphRange_iff:
  "paragraphRange item = Some (s, e) \<longleftrightarrow>
     paragraphElements item \<noteq> None \<and> startIndex item = Some s \<and> endIndex item = Some e"
  by (auto simp: paragraphRange_def split: option.splits)

lemma splitLines_nonempty: "l \<in> set (splitLines buf) \<Longrightarrow> l \<noteq> []"
proof (induction buf arbitrary: l)
  case Nil
  then show ?case by simp
next
  case (Cons x xs)
  show ?case
  proof (cases "splitLines xs")
    case Nil
    with Cons.prems show ?thesis by simp
  next
    case (Cons m ms)
    with Cons.prems Cons.IH show ?thesis by (auto split: if_splits)
  qed
qed

lemma startOffsets_Cons:
  "startOffsets (x # xs) = (case startIndex x of None \<Rightarrow> startOffsets xs | Some s \<Rightarrow> s # startOffsets xs)"
  by (simp add: startOffsets_def map_filter_def split: option.splits)

lemma renderParagraphs_offsets:
  "\<forall>l \<in> set ls. l \<noteq> [] \<Longrightarrow>
     distinct (startOffsets (renderParagraphs i ls)) \<and>
     (\<forall>x \<in> set (startOffsets (renderParagraphs i ls)). i \<le> x)"
proof (induction ls arbitrary: i)
  case Nil
  then show ?case by (simp add: startOffsets_def map_filter_def)
next
  case (Cons l ls)
  from Cons.prems have l: "0 < length l" and rest: "\<forall>l \<in> set ls. l \<noteq> []" by simp_all
  from Cons.IH [OF rest, of "i + length l"]
  have d: "distinct (startOffsets (renderParagraphs (i + length l) ls))"
    and g: "\<forall>x \<in> set (startOffsets (renderParagraphs (i + length l) ls)). i + length l \<le> x"
    by blast+
  from g l have "i \<notin> set (startOffsets (renderParagraphs (i + length l) ls))" by fastforce
  moreover from g have "\<forall>x \<in> set (startOffsets (renderParagraphs (i + length l) ls)). i \<le> x"
    by fastforce
  ultimately show ?case using d by (simp add: startOffsets_Cons)
qed

lemma render_distinct:
  "body_content (documents_get memoryStore s) = Some content \<Longrightarrow> distinct (startOffsets content)"
proof -
  assume "body_content (documents_get memoryStore s) = Some content"
  then have c: "content = sectionBreak # renderParagraphs 1 (splitLines s)"
    by (simp add: memoryStore_def render_def)
  have "\<forall>l \<in> set (splitLines s). l \<noteq> []" using splitLines_nonempty by blast
  from renderParagraphs_offsets [OF this, of 1]
  show ?thesis unfolding c by (simp add: startOffsets_Cons sectionBreak_def)
qed

lemma closest_step:
  assumes e: "eligible x"
  shows "closest t (x # xs) best =
     closest t xs (case best of None \<Rightarrow> Some (x, distanceTo t x)
        | Some (b, bd) \<Rightarrow> if distanceTo t x < bd then Some (x, distanceTo t x) else Some (b, bd))"
proof -
  from e obtain s where s: "startIndex x = Some s" by (auto simp: eligible_def)
  then have d: "distanceTo t x = absDiff s t" by (simp add: distanceTo_def orZero_def)
  show ?thesis
  proof (cases best)
    case None
    with closest_first [OF e s] d show ?thesis by simp
  next
    case (Some p)
    obtain b bd where p: "p = (b, bd)" by (cases p)
    show ?thesis
    proof (cases "absDiff s t < bd")
      case True
      with closest_better [OF e s True] Some p d show ?thesis by simp
    next
      case False
      with closest_keep [OF e s False] Some p d show ?thesis by simp
    qed
  qed
qed

lemma closest_spec:
  "closest t items best = res \<Longrightarrow>
     (res = None \<longrightarrow> best = None \<and> (\<forall>x \<in> set items. \<not> eligible x)) \<and>
     (\<forall>m dm. res = Some (m, dm) \<longrightarrow>
        (best = Some (m, dm) \<and> (\<forall>x \<in> set items. eligible x \<longrightarrow> dm \<le> distanceTo t x)) \<or>
        (\<exists>i < length items. items ! i = m \<and> eligible m \<and> dm = distanceTo t m \<and>
            (\<forall>j < length items. eligible (items ! j) \<longrightarrow> dm \<le> distanceTo t (items ! j)) \<and>
            (\<forall>j < i. eligible (items ! j) \<longrightarrow> dm < distanceTo t (items ! j)) \<and>
            (\<forall>b bd. best = Some (b, bd) \<longrightarrow> dm < bd)))"
proof (induction items arbitrary: best)
  case Nil
  then show ?case by auto
next
  case (Cons x xs)
  show ?case
  proof (cases "eligible x")
    case False
    from Cons.prems have r: "closest t xs best = res" unfolding closest_skip [OF False] .
    note ih = Cons.IH [OF r]
    have none: "res = None \<longrightarrow> best = None \<and> (\<forall>y \<in> set (x # xs). \<not> eligible y)"
      using ih False by simp
    have some: "(best = Some (m, dm) \<and> (\<forall>y \<in> set (x # xs). eligible y \<longrightarrow> dm \<le> distanceTo t y)) \<or>
        (\<exists>i < length (x # xs). (x # xs) ! i = m \<and> eligible m \<and> dm = distanceTo t m \<and>
            (\<forall>j < length (x # xs). eligible ((x # xs) ! j) \<longrightarrow> dm \<le> distanceTo t ((x # xs) ! j)) \<and>
            (\<forall>j < i. eligible ((x # xs) ! j) \<longrightarrow> dm < distanceTo t ((x # xs) ! j)) \<and>
            (\<forall>b bd. best = Some (b, bd) \<longrightarrow> dm < bd))"
      if res: "res = Some (m, dm)" for m dm
    proof -
      from ih res have "(best = Some (m, dm) \<and> (\<forall>y \<in> set xs. eligible y \<longrightarrow> dm \<le> distanceTo t y)) \<or>
        (\<exists>i < length xs. xs ! i = m \<and> eligible m \<and> dm = distanceTo t m \<and>
            (\<forall>j < length xs. eligible (xs ! j) \<longrightarrow> dm \<le> distanceTo t (xs ! j)) \<and>
            (\<forall>j < i. eligible (xs ! j) \<longrightarrow> dm < distanceTo t (xs ! j)) \<and>
            (\<forall>b bd. best = Some (b, bd) \<longrightarrow> dm < bd))" by blast
      then show ?thesis
      proof
        assume "best = Some (m, dm) \<and> (\<forall>y \<in> set xs. eligible y \<longrightarrow> dm \<le> distanceTo t y)"
        with False show ?thesis by auto
      next
        assume "\<exists>i < length xs. xs ! i = m \<and> eligible m \<and> dm = distanceTo t m \<and>
            (\<forall>j < length xs. eligible (xs ! j) \<longrightarrow> dm \<le> distanceTo t (xs ! j)) \<and>
            (\<forall>j < i. eligible (xs ! j) \<longrightarrow> dm < distanceTo t (xs ! j)) \<and>
            (\<forall>b bd. best = Some (b, bd) \<longrightarrow> dm < bd)"
        then obtain i where i: "i < length xs" "xs ! i = m" "eligible m" "dm = distanceTo t m"
          and le: "\<forall>j < length xs. eligible (xs ! j) \<longrightarrow> dm \<le> distanceTo t (xs ! j)"
          and lt: "\<forall>j < i. eligible (xs ! j) \<longrightarrow> dm < distanceTo t (xs ! j)"
          and bb: "\<forall>b bd. best = Some (b, bd) \<longrightarrow> dm < bd" by blast
        have le': "\<forall>j < length (x # xs). eligible ((x # xs) ! j) \<longrightarrow> dm \<le> distanceTo t ((x # xs) ! j)"
        proof (intro allI impI)
          fix j assume "j < length (x # xs)" "eligible ((x # xs) ! j)"
          with False le show "dm \<le> distanceTo t ((x # xs) ! j)" by (cases j) auto
        qed
        have lt': "\<forall>j < Suc i. eligible ((x # xs) ! j) \<longrightarrow> dm < distanceTo t ((x # xs) ! j)"
        proof (intro allI impI)
          fix j assume "j < Suc i" "eligible ((x # xs) ! j)"
          with False lt show "dm < distanceTo t ((x # xs) ! j)" by (cases j) auto
        qed
        from i have "Suc i < length (x # xs)" "(x # xs) ! Suc i = m" by simp_all
        with i(3,4) le' lt' bb show ?thesis by blast
      qed
    qed
    from none some show ?thesis by blast
  next
    case True
    let ?dx = "distanceTo t x"
    let ?best' = "case best of None \<Rightarrow> Some (x, ?dx)
        | Some (b, bd) \<Rightarrow> if ?dx < bd then Some (x, ?dx) else Some (b, bd)"
    from Cons.prems have r: "closest t xs ?best' = res" unfolding closest_step [OF True] .
    note ih = Cons.IH [OF r]
    have b'ne: "?best' \<noteq> None" by (cases best) (auto split: prod.splits)
    have none: "res = None \<longrightarrow> best = None \<and> (\<forall>y \<in> set (x # xs). \<not> eligible y)"
      using ih b'ne by blast
    have some: "(best = Some (m, dm) \<and> (\<forall>y \<in> set (x # xs). eligible y \<longrightarrow> dm \<le> distanceTo t y)) \<or>
        (\<exists>i < length (x # xs). (x # xs) ! i = m \<and> eligible m \<and> dm = distanceTo t m \<and>
            (\<forall>j < length (x # xs). eligible ((x # xs) ! j) \<longrightarrow> dm \<le> distanceTo t ((x # xs) ! j)) \<and>
            (\<forall>j < i. eligible ((x # xs) ! j) \<longrightarrow> dm < distanceTo t ((x # xs) ! j)) \<and>
            (\<forall>b bd. best = Some (b, bd) \<longrightarrow> dm < bd))"
      if res: "res = Some (m, dm)" for m dm
    proof -
      from ih res have "(?best' = Some (m, dm) \<and> (\<forall>y \<in> set xs. eligible y \<longrightarrow> dm \<le> distanceTo t y)) \<or>
        (\<exists>i < length xs. xs ! i = m \<and> eligible m \<and> dm = distanceTo t m \<and>
            (\<forall>j < length xs. eligible (xs ! j) \<longrightarrow> dm \<le> distanceTo t (xs ! j)) \<and>
            (\<forall>j < i. eligible (xs ! j) \<longrightarrow> dm < distanceTo t (xs ! j)) \<and>
            (\<forall>b bd. ?best' = Some (b, bd) \<longrightarrow> dm < bd))" by blast
      then show ?thesis
      proof
        assume a: "?best' = Some (m, dm) \<and> (\<forall>y \<in> set xs. eligible y \<longrightarrow> dm \<le> distanceTo t y)"
        then have all: "\<forall>y \<in> set xs. eligible y \<longrightarrow> dm \<le> distanceTo t y" by blast
        from a have "(m = x \<and> dm = ?dx \<and> (\<forall>b bd. best = Some (b, bd) \<longrightarrow> ?dx < bd)) \<or>
            (best = Some (m, dm) \<and> \<not> ?dx < dm)"
          by (cases best) (auto split: prod.splits if_splits)
        then show ?thesis
        proof
          assume k: "m = x \<and> dm = ?dx \<and> (\<forall>b bd. best = Some (b, bd) \<longrightarrow> ?dx < bd)"
          have le': "\<forall>j < length (x # xs). eligible ((x # xs) ! j) \<longrightarrow> dm \<le> distanceTo t ((x # xs) ! j)"
          proof (intro allI impI)
            fix j assume "j < length (x # xs)" "eligible ((x # xs) ! j)"
            with k all show "dm \<le> distanceTo t ((x # xs) ! j)" by (cases j) auto
          qed
          from k True have em: "eligible m" and dmm: "dm = distanceTo t m"
            and bb2: "\<forall>b bd. best = Some (b, bd) \<longrightarrow> dm < bd" by auto
          have z: "0 < length (x # xs)" and z0: "(x # xs) ! 0 = m" using k by simp_all
          have lt0: "\<forall>j < (0 :: nat). eligible ((x # xs) ! j) \<longrightarrow> dm < distanceTo t ((x # xs) ! j)"
            by simp
          from z z0 em dmm le' lt0 bb2 show ?thesis by blast
        next
          assume k: "best = Some (m, dm) \<and> \<not> ?dx < dm"
          with all have "\<forall>y \<in> set (x # xs). eligible y \<longrightarrow> dm \<le> distanceTo t y" by auto
          with k show ?thesis by blast
        qed
      next
        assume "\<exists>i < length xs. xs ! i = m \<and> eligible m \<and> dm = distanceTo t m \<and>
            (\<forall>j < length xs. eligible (xs ! j) \<longrightarrow> dm \<le> distanceTo t (xs ! j)) \<and>
            (\<forall>j < i. eligible (xs ! j) \<longrightarrow> dm < distanceTo t (xs ! j)) \<and>
            (\<forall>b bd. ?best' = Some (b, bd) \<longrightarrow> dm < bd)"
        then obtain i where i: "i < length xs" "xs ! i = m" "eligible m" "dm = distanceTo t m"
          and le: "\<forall>j < length xs. eligible (xs ! j) \<longrightarrow> dm \<le> distanceTo t (xs ! j)"
          and lt: "\<forall>j < i. eligible (xs ! j) \<longrightarrow> dm < distanceTo t (xs ! j)"
          and bb: "\<forall>b bd. ?best' = Some (b, bd) \<longrightarrow> dm < bd" by blast
        from bb have dx: "dm < ?dx" and bo: "\<forall>b bd. best = Some (b, bd) \<longrightarrow> dm < bd"
          by (cases best; auto split: prod.splits if_splits)+
        have le': "\<forall>j < length (x # xs). eligible ((x # xs) ! j) \<longrightarrow> dm \<le> distanceTo t ((x # xs) ! j)"
        proof (intro allI impI)
          fix j assume "j < length (x # xs)" "eligible ((x # xs) ! j)"
          with dx le show "dm \<le> distanceTo t ((x # xs) ! j)" by (cases j) auto
        qed
        have lt': "\<forall>j < Suc i. eligible ((x # xs) ! j) \<longrightarrow> dm < distanceTo t ((x # xs) ! j)"
        proof (intro allI impI)
          fix j assume "j < Suc i" "eligible ((x # xs) ! j)"
          with dx lt show "dm < distanceTo t ((x # xs) ! j)" by (cases j) auto
        qed
        from i have "Suc i < length (x # xs)" "(x # xs) ! Suc i = m" by simp_all
        with i(3,4) le' lt' bo show ?thesis by blast
      qed
    qed
    from none some show ?thesis by blast
  qed
qed

lemma firstClosest_unique:
  assumes "firstClosest content t i" "firstClosest content t j"
  shows "i = j"
proof (rule ccontr)
  assume ne: "i \<noteq> j"
  show False
  proof (cases "i < j")
    case True
    with assms show False unfolding firstClosest_def by (meson not_le)
  next
    case False
    with ne have "j < i" by simp
    with assms show False unfolding firstClosest_def by (meson not_le)
  qed
qed

lemma findParagraphByRange_spec:
  assumes c: "body_content doc = Some content"
  shows "(findParagraphByRange doc s e = None \<longleftrightarrow> (\<forall>i < length content. \<not> eligible (content ! i))) \<and>
     (\<forall>i. firstClosest content s i \<longrightarrow> findParagraphByRange doc s e = Some (content ! i)) \<and>
     (\<forall>m. findParagraphByRange doc s e = Some m \<longrightarrow>
        (\<exists>i. firstClosest content s i \<and> content ! i = m))"
proof -
  let ?res = "closest s content None"
  have f: "findParagraphByRange doc s e = map_option fst ?res"
    using c by (simp add: findParagraphByRange_def)
  note sp = closest_spec [of s content None ?res, OF refl]
  have some: "\<exists>i. firstClosest content s i \<and> content ! i = m" if r: "?res = Some (m, dm)" for m dm
  proof -
    from sp r obtain i where "i < length content" "content ! i = m" "eligible m"
      "dm = distanceTo s m"
      "\<forall>j < length content. eligible (content ! j) \<longrightarrow> dm \<le> distanceTo s (content ! j)"
      "\<forall>j < i. eligible (content ! j) \<longrightarrow> dm < distanceTo s (content ! j)" by blast
    then have "firstClosest content s i" by (simp add: firstClosest_def)
    with \<open>content ! i = m\<close> show ?thesis by blast
  qed
  have none: "?res = None \<longleftrightarrow> (\<forall>i < length content. \<not> eligible (content ! i))"
  proof
    assume "?res = None"
    with sp have "\<forall>x \<in> set content. \<not> eligible x" by blast
    then show "\<forall>i < length content. \<not> eligible (content ! i)" by simp
  next
    assume n: "\<forall>i < length content. \<not> eligible (content ! i)"
    show "?res = None"
    proof (cases ?res)
      case None
      then show ?thesis .
    next
      case (Some p)
      obtain m dm where "p = (m, dm)" by (cases p)
      with Some some [of m dm] n show ?thesis by (auto simp: firstClosest_def)
    qed
  qed
  have a: "findParagraphByRange doc s e = None \<longleftrightarrow> (\<forall>i < length content. \<not> eligible (content ! i))"
    unfolding f using none by simp
  have b: "\<forall>m. findParagraphByRange doc s e = Some m \<longrightarrow>
      (\<exists>i. firstClosest content s i \<and> content ! i = m)"
  proof (intro allI impI)
    fix m
    assume "findParagraphByRange doc s e = Some m"
    then obtain dm where "?res = Some (m, dm)" unfolding f by auto
    then show "\<exists>i. firstClosest content s i \<and> content ! i = m" by (rule some)
  qed
  have d: "\<forall>i. firstClosest content s i \<longrightarrow> findParagraphByRange doc s e = Some (content ! i)"
  proof (intro allI impI)
    fix i
    assume fc: "firstClosest content s i"
    then have "i < length content" "eligible (content ! i)" by (simp_all add: firstClosest_def)
    with a have "findParagraphByRange doc s e \<noteq> None" by blast
    then obtain m where m: "findParagraphByRange doc s e = Some m" by blast
    with b obtain j where "firstClosest content s j" "content ! j = m" by blast
    with fc firstClosest_unique have "content ! i = m" by blast
    with m show "findParagraphByRange doc s e = Some (content ! i)" by simp
  qed
  from a d b show ?thesis by (intro conjI)
qed

text \<open>
  Claim C2, as amended. Let every snapshot of the store have pairwise distinct start
  offsets, and let the snapshot the sweeper reads first have content. The candidates are
  the ranges of the blocks that have \<^verbatim>\<open>paragraph.elements\<close> and both offsets, the greatest
  start first. The loop makes one turn for each candidate, on the snapshot it reads in
  that turn: a turn either sends nothing or sends, inside \<^verbatim>\<open>try\<close>, one deletion, of the
  exact range of a block that is blank or a bar and has no retained heading before or
  after it; and when the candidate is the range of a blank or bar paragraph of that
  snapshot, the turn sends nothing if the block before or after it is a retained heading,
  and the deletion of the range otherwise. In general the block a turn looks at is the
  first, in the order of the snapshot, of the blocks with a paragraph and both offsets
  whose start is closest to the start of the candidate: the turn sends the deletion of
  the range of that block when it is blank or a bar and not adjacent to a retained
  heading, and nothing otherwise or when there is no such block. The same holds of the
  requests of a turn on any snapshot with distinct start offsets.
\<close>

theorem sweeper_keeps_heading_spacing:
  assumes wf: "\<forall>s content. body_content (documents_get api s) = Some content \<longrightarrow>
       distinct (startOffsets content)"
    and c0: "body_content (documents_get api (store r)) = Some content0"
  shows "(\<forall>p. p \<in> set (sortDesc (collectParagraphs content0)) \<longleftrightarrow>
            (\<exists>i < length content0. paragraphRange (content0 ! i) = Some p)) \<and>
         sorted_wrt (\<lambda>p q. fst q \<le> fst p) (sortDesc (collectParagraphs content0)) \<and>
         (\<forall>item s e. paragraphRange item = Some (s, e) \<longleftrightarrow>
            paragraphElements item \<noteq> None \<and> startIndex item = Some s \<and> endIndex item = Some e) \<and>
         (\<exists>rs. length rs = Suc (length (sortDesc (collectParagraphs content0))) \<and>
            rs ! 0 = r \<and>
            rs ! length (sortDesc (collectParagraphs content0)) =
              removeEmptyBarLinesOneByOne api hl r \<and>
            (\<forall>k < length (sortDesc (collectParagraphs content0)).
               (body_content (documents_get api (store (rs ! k))) = None \<longrightarrow> rs ! Suc k = rs ! k) \<and>
               (\<forall>content. body_content (documents_get api (store (rs ! k))) = Some content \<longrightarrow>
                  (rs ! Suc k = rs ! k \<or>
                   (\<exists>i s e. i < length content \<and> startIndex (content ! i) = Some s \<and>
                      endIndex (content ! i) = Some e \<and> blankOrBar (content ! i) \<and>
                      \<not> adjacentToHeading content hl i \<and>
                      rs ! Suc k = tryBatch api [DeleteContentRange s e] (rs ! k))) \<and>
                  (\<forall>i s e. i < length content \<and> paragraphRange (content ! i) = Some (s, e) \<and>
                       sortDesc (collectParagraphs content0) ! k = (s, e) \<and>
                       blankOrBar (content ! i) \<longrightarrow>
                     rs ! Suc k =
                       (if adjacentToHeading content hl i then rs ! k
                        else tryBatch api [DeleteContentRange s e] (rs ! k))) \<and>
                  ((\<forall>i < length content. \<not> eligible (content ! i)) \<longrightarrow> rs ! Suc k = rs ! k) \<and>
                  (\<forall>i s e. firstClosest content (fst (sortDesc (collectParagraphs content0) ! k)) i \<and>
                       startIndex (content ! i) = Some s \<and> endIndex (content ! i) = Some e \<longrightarrow>
                     rs ! Suc k =
                       (if blankOrBar (content ! i) \<and> \<not> adjacentToHeading content hl i
                        then tryBatch api [DeleteContentRange s e] (rs ! k) else rs ! k))))) \<and>
         (\<forall>doc content. body_content doc = Some content \<and> distinct (startOffsets content) \<longrightarrow>
            (\<forall>p req. req \<in> set (sweepRequests doc hl p) \<longrightarrow>
               (\<exists>i s e. i < length content \<and> req = DeleteContentRange s e \<and>
                  startIndex (content ! i) = Some s \<and> endIndex (content ! i) = Some e \<and>
                  blankOrBar (content ! i) \<and> \<not> adjacentToHeading content hl i)) \<and>
            (\<forall>i s e. i < length content \<and> paragraphRange (content ! i) = Some (s, e) \<and>
                  blankOrBar (content ! i) \<longrightarrow>
               sweepRequests doc hl (s, e) =
                 (if adjacentToHeading content hl i then [] else [DeleteContentRange s e])))"
proof -
  let ?ps = "sortDesc (collectParagraphs content0)"
  have cand: "\<forall>p. p \<in> set ?ps \<longleftrightarrow> (\<exists>i < length content0. paragraphRange (content0 ! i) = Some p)"
    by (simp only: sortDesc_set collectParagraphs_iff) simp
  have srt: "sorted_wrt (\<lambda>p q. fst q \<le> fst p) ?ps" by (rule sortDesc_sorted)
  have rng: "\<forall>item s e. paragraphRange item = Some (s, e) \<longleftrightarrow>
      paragraphElements item \<noteq> None \<and> startIndex item = Some s \<and> endIndex item = Some e"
    using paragraphRange_iff by blast
  from sweepLoop_runs [of ?ps r api hl] obtain rs where l: "length rs = Suc (length ?ps)"
    and h: "rs ! 0 = r" and e: "rs ! length ?ps = sweepLoop api hl ?ps r"
    and t: "\<forall>k < length ?ps. rs ! Suc k =
        (case body_content (documents_get api (store (rs ! k))) of
           None \<Rightarrow> rs ! k
         | Some content \<Rightarrow>
             (case sweepRequests (documents_get api (store (rs ! k))) hl (?ps ! k) of
                [] \<Rightarrow> rs ! k
              | req # reqs \<Rightarrow> tryBatch api (req # reqs) (rs ! k)))" by blast
  have e': "rs ! length ?ps = removeEmptyBarLinesOneByOne api hl r"
    using e c0 by (simp add: removeEmptyBarLinesOneByOne_def)
  have turn: "(body_content (documents_get api (store (rs ! k))) = None \<longrightarrow> rs ! Suc k = rs ! k) \<and>
      (\<forall>content. body_content (documents_get api (store (rs ! k))) = Some content \<longrightarrow>
         (rs ! Suc k = rs ! k \<or>
          (\<exists>i s e. i < length content \<and> startIndex (content ! i) = Some s \<and>
             endIndex (content ! i) = Some e \<and> blankOrBar (content ! i) \<and>
             \<not> adjacentToHeading content hl i \<and>
             rs ! Suc k = tryBatch api [DeleteContentRange s e] (rs ! k))) \<and>
         (\<forall>i s e. i < length content \<and> paragraphRange (content ! i) = Some (s, e) \<and>
              ?ps ! k = (s, e) \<and> blankOrBar (content ! i) \<longrightarrow>
            rs ! Suc k =
              (if adjacentToHeading content hl i then rs ! k
               else tryBatch api [DeleteContentRange s e] (rs ! k))) \<and>
         ((\<forall>i < length content. \<not> eligible (content ! i)) \<longrightarrow> rs ! Suc k = rs ! k) \<and>
         (\<forall>i s e. firstClosest content (fst (?ps ! k)) i \<and>
              startIndex (content ! i) = Some s \<and> endIndex (content ! i) = Some e \<longrightarrow>
            rs ! Suc k =
              (if blankOrBar (content ! i) \<and> \<not> adjacentToHeading content hl i
               then tryBatch api [DeleteContentRange s e] (rs ! k) else rs ! k)))"
    if k: "k < length ?ps" for k
  proof (intro conjI allI impI)
    assume n: "body_content (documents_get api (store (rs ! k))) = None"
    from t k have "rs ! Suc k =
        (case body_content (documents_get api (store (rs ! k))) of
           None \<Rightarrow> rs ! k
         | Some content \<Rightarrow>
             (case sweepRequests (documents_get api (store (rs ! k))) hl (?ps ! k) of
                [] \<Rightarrow> rs ! k
              | req # reqs \<Rightarrow> tryBatch api (req # reqs) (rs ! k)))" by blast
    then show "rs ! Suc k = rs ! k" unfolding n by simp
  next
    fix content
    assume c: "body_content (documents_get api (store (rs ! k))) = Some content"
    let ?doc = "documents_get api (store (rs ! k))"
    from wf c have d: "distinct (startOffsets content)" by blast
    from t k have "rs ! Suc k =
        (case body_content ?doc of
           None \<Rightarrow> rs ! k
         | Some content \<Rightarrow>
             (case sweepRequests ?doc hl (?ps ! k) of
                [] \<Rightarrow> rs ! k
              | req # reqs \<Rightarrow> tryBatch api (req # reqs) (rs ! k)))" by blast
    then have u: "rs ! Suc k =
        (case sweepRequests ?doc hl (?ps ! k) of
           [] \<Rightarrow> rs ! k
         | req # reqs \<Rightarrow> tryBatch api (req # reqs) (rs ! k))" unfolding c by simp
    from sweepRequests_cases [OF c d, of hl "?ps ! k"]
    show "rs ! Suc k = rs ! k \<or>
        (\<exists>i s e. i < length content \<and> startIndex (content ! i) = Some s \<and>
           endIndex (content ! i) = Some e \<and> blankOrBar (content ! i) \<and>
           \<not> adjacentToHeading content hl i \<and>
           rs ! Suc k = tryBatch api [DeleteContentRange s e] (rs ! k))"
    proof
      assume "sweepRequests ?doc hl (?ps ! k) = []"
      with u show ?thesis by simp
    next
      assume "\<exists>i s e. i < length content \<and> startIndex (content ! i) = Some s \<and>
          endIndex (content ! i) = Some e \<and> blankOrBar (content ! i) \<and>
          \<not> adjacentToHeading content hl i \<and>
          sweepRequests ?doc hl (?ps ! k) = [DeleteContentRange s e]"
      then obtain i s e where f: "i < length content" "startIndex (content ! i) = Some s"
        "endIndex (content ! i) = Some e" "blankOrBar (content ! i)"
        "\<not> adjacentToHeading content hl i"
        and q: "sweepRequests ?doc hl (?ps ! k) = [DeleteContentRange s e]" by blast
      from u q have "rs ! Suc k = tryBatch api [DeleteContentRange s e] (rs ! k)" by simp
      with f show ?thesis by blast
    qed
  next
    fix content i s e
    assume c: "body_content (documents_get api (store (rs ! k))) = Some content"
      and a: "i < length content \<and> paragraphRange (content ! i) = Some (s, e) \<and>
        ?ps ! k = (s, e) \<and> blankOrBar (content ! i)"
    let ?doc = "documents_get api (store (rs ! k))"
    from wf c have d: "distinct (startOffsets content)" by blast
    from a have i: "i < length content" and r: "paragraphRange (content ! i) = Some (s, e)"
      and pk: "?ps ! k = (s, e)" and b: "blankOrBar (content ! i)" by simp_all
    from t k have "rs ! Suc k =
        (case body_content ?doc of
           None \<Rightarrow> rs ! k
         | Some content \<Rightarrow>
             (case sweepRequests ?doc hl (?ps ! k) of
                [] \<Rightarrow> rs ! k
              | req # reqs \<Rightarrow> tryBatch api (req # reqs) (rs ! k)))" by blast
    then have u: "rs ! Suc k =
        (case sweepRequests ?doc hl (s, e) of
           [] \<Rightarrow> rs ! k
         | req # reqs \<Rightarrow> tryBatch api (req # reqs) (rs ! k))" unfolding c pk by simp
    show "rs ! Suc k =
        (if adjacentToHeading content hl i then rs ! k
         else tryBatch api [DeleteContentRange s e] (rs ! k))"
      unfolding u sweepRequests_own [OF c d i r b] by simp
  next
    fix content
    assume c: "body_content (documents_get api (store (rs ! k))) = Some content"
      and n: "\<forall>i < length content. \<not> eligible (content ! i)"
    let ?doc = "documents_get api (store (rs ! k))"
    from findParagraphByRange_spec [OF c, of "fst (?ps ! k)" "snd (?ps ! k)"] n
    have "findParagraphByRange ?doc (fst (?ps ! k)) (snd (?ps ! k)) = None" by blast
    then have q: "sweepRequests ?doc hl (?ps ! k) = []" by (simp add: sweepRequests_def)
    from t k have "rs ! Suc k =
        (case body_content ?doc of
           None \<Rightarrow> rs ! k
         | Some content \<Rightarrow>
             (case sweepRequests ?doc hl (?ps ! k) of
                [] \<Rightarrow> rs ! k
              | req # reqs \<Rightarrow> tryBatch api (req # reqs) (rs ! k)))" by blast
    then show "rs ! Suc k = rs ! k" unfolding c q by simp
  next
    fix content i s e
    assume c: "body_content (documents_get api (store (rs ! k))) = Some content"
      and a: "firstClosest content (fst (?ps ! k)) i \<and>
        startIndex (content ! i) = Some s \<and> endIndex (content ! i) = Some e"
    let ?doc = "documents_get api (store (rs ! k))"
    from wf c have d: "distinct (startOffsets content)" by blast
    from a have fc: "firstClosest content (fst (?ps ! k)) i"
      and s: "startIndex (content ! i) = Some s" and e: "endIndex (content ! i) = Some e"
      by simp_all
    from fc have i: "i < length content" by (simp add: firstClosest_def)
    from findParagraphByRange_spec [OF c, of "fst (?ps ! k)" "snd (?ps ! k)"] fc
    have m: "findParagraphByRange ?doc (fst (?ps ! k)) (snd (?ps ! k)) = Some (content ! i)"
      by blast
    from t k have "rs ! Suc k =
        (case body_content ?doc of
           None \<Rightarrow> rs ! k
         | Some content \<Rightarrow>
             (case sweepRequests ?doc hl (?ps ! k) of
                [] \<Rightarrow> rs ! k
              | req # reqs \<Rightarrow> tryBatch api (req # reqs) (rs ! k)))" by blast
    then have u: "rs ! Suc k =
        (case sweepRequests ?doc hl (?ps ! k) of
           [] \<Rightarrow> rs ! k
         | req # reqs \<Rightarrow> tryBatch api (req # reqs) (rs ! k))" unfolding c by simp
    show "rs ! Suc k =
        (if blankOrBar (content ! i) \<and> \<not> adjacentToHeading content hl i
         then tryBatch api [DeleteContentRange s e] (rs ! k) else rs ! k)"
      unfolding u sweepRequests_match [OF c d i s e m] by simp
  qed
  have loop: "\<exists>rs. length rs = Suc (length ?ps) \<and> rs ! 0 = r \<and>
      rs ! length ?ps = removeEmptyBarLinesOneByOne api hl r \<and>
      (\<forall>k < length ?ps.
         (body_content (documents_get api (store (rs ! k))) = None \<longrightarrow> rs ! Suc k = rs ! k) \<and>
         (\<forall>content. body_content (documents_get api (store (rs ! k))) = Some content \<longrightarrow>
            (rs ! Suc k = rs ! k \<or>
             (\<exists>i s e. i < length content \<and> startIndex (content ! i) = Some s \<and>
                endIndex (content ! i) = Some e \<and> blankOrBar (content ! i) \<and>
                \<not> adjacentToHeading content hl i \<and>
                rs ! Suc k = tryBatch api [DeleteContentRange s e] (rs ! k))) \<and>
            (\<forall>i s e. i < length content \<and> paragraphRange (content ! i) = Some (s, e) \<and>
                 ?ps ! k = (s, e) \<and> blankOrBar (content ! i) \<longrightarrow>
               rs ! Suc k =
                 (if adjacentToHeading content hl i then rs ! k
                  else tryBatch api [DeleteContentRange s e] (rs ! k))) \<and>
            ((\<forall>i < length content. \<not> eligible (content ! i)) \<longrightarrow> rs ! Suc k = rs ! k) \<and>
            (\<forall>i s e. firstClosest content (fst (?ps ! k)) i \<and>
                 startIndex (content ! i) = Some s \<and> endIndex (content ! i) = Some e \<longrightarrow>
               rs ! Suc k =
                 (if blankOrBar (content ! i) \<and> \<not> adjacentToHeading content hl i
                  then tryBatch api [DeleteContentRange s e] (rs ! k) else rs ! k))))"
    using l h e' turn by (intro exI [of _ rs]) simp
  have snap: "(\<forall>p req. req \<in> set (sweepRequests doc hl p) \<longrightarrow>
         (\<exists>i s e. i < length content \<and> req = DeleteContentRange s e \<and>
            startIndex (content ! i) = Some s \<and> endIndex (content ! i) = Some e \<and>
            blankOrBar (content ! i) \<and> \<not> adjacentToHeading content hl i)) \<and>
      (\<forall>i s e. i < length content \<and> paragraphRange (content ! i) = Some (s, e) \<and>
            blankOrBar (content ! i) \<longrightarrow>
         sweepRequests doc hl (s, e) =
           (if adjacentToHeading content hl i then [] else [DeleteContentRange s e]))"
    if c: "body_content doc = Some content" and d: "distinct (startOffsets content)"
    for doc content
  proof (intro conjI allI impI)
    fix p req
    assume req: "req \<in> set (sweepRequests doc hl p)"
    from sweepRequests_cases [OF c d, of hl p] req
    obtain i s e where "i < length content" "startIndex (content ! i) = Some s"
      "endIndex (content ! i) = Some e" "blankOrBar (content ! i)"
      "\<not> adjacentToHeading content hl i" "sweepRequests doc hl p = [DeleteContentRange s e]"
      by auto
    with req show "\<exists>i s e. i < length content \<and> req = DeleteContentRange s e \<and>
        startIndex (content ! i) = Some s \<and> endIndex (content ! i) = Some e \<and>
        blankOrBar (content ! i) \<and> \<not> adjacentToHeading content hl i" by auto
  next
    fix i s e
    assume "i < length content \<and> paragraphRange (content ! i) = Some (s, e) \<and> blankOrBar (content ! i)"
    then have "i < length content" "paragraphRange (content ! i) = Some (s, e)" "blankOrBar (content ! i)"
      by simp_all
    from sweepRequests_own [OF c d this] show "sweepRequests doc hl (s, e) =
        (if adjacentToHeading content hl i then [] else [DeleteContentRange s e])" .
  qed
  have snap': "\<forall>doc content. body_content doc = Some content \<and> distinct (startOffsets content) \<longrightarrow>
      (\<forall>p req. req \<in> set (sweepRequests doc hl p) \<longrightarrow>
         (\<exists>i s e. i < length content \<and> req = DeleteContentRange s e \<and>
            startIndex (content ! i) = Some s \<and> endIndex (content ! i) = Some e \<and>
            blankOrBar (content ! i) \<and> \<not> adjacentToHeading content hl i)) \<and>
      (\<forall>i s e. i < length content \<and> paragraphRange (content ! i) = Some (s, e) \<and>
            blankOrBar (content ! i) \<longrightarrow>
         sweepRequests doc hl (s, e) =
           (if adjacentToHeading content hl i then [] else [DeleteContentRange s e]))"
  proof (intro allI impI)
    fix doc :: Document and content
    assume "body_content doc = Some content \<and> distinct (startOffsets content)"
    then have "body_content doc = Some content" "distinct (startOffsets content)" by simp_all
    then show "(\<forall>p req. req \<in> set (sweepRequests doc hl p) \<longrightarrow>
         (\<exists>i s e. i < length content \<and> req = DeleteContentRange s e \<and>
            startIndex (content ! i) = Some s \<and> endIndex (content ! i) = Some e \<and>
            blankOrBar (content ! i) \<and> \<not> adjacentToHeading content hl i)) \<and>
      (\<forall>i s e. i < length content \<and> paragraphRange (content ! i) = Some (s, e) \<and>
            blankOrBar (content ! i) \<longrightarrow>
         sweepRequests doc hl (s, e) =
           (if adjacentToHeading content hl i then [] else [DeleteContentRange s e]))"
      by (rule snap)
  qed
  from cand srt rng loop snap' show ?thesis by (intro conjI)
qed

text \<open>
  The theorem on the reference store: the bar line under the retained heading EXPERIENCE
  is kept, the bar line between two body lines is deleted, and the deletion of the last
  blank line, which the store refuses, ends in a warning.
\<close>

theorem sweeper_keeps_heading_spacing_witness:
  "body_content (documents_get memoryStore (store (start (plain barLinesBody)))) = Some barLinesBlocks \<and>
   sortDesc (collectParagraphs barLinesBlocks) = [(33, 34), (25, 33), (21, 25), (16, 21), (12, 16), (1, 12)] \<and>
   blankOrBar (barLinesBlocks ! 2) \<and> adjacentToHeading barLinesBlocks [''EXPERIENCE''] 2 \<and>
   sweepRequests (render (plain barLinesBody)) [''EXPERIENCE''] (12, 16) = [] \<and>
   blankOrBar (barLinesBlocks ! 4) \<and> \<not> adjacentToHeading barLinesBlocks [''EXPERIENCE''] 4 \<and>
   sweepRequests (render (plain barLinesBody)) [''EXPERIENCE''] (21, 25) = [DeleteContentRange 21 25] \<and>
   removeEmptyBarLinesOneByOne memoryStore [''EXPERIENCE''] (start (plain barLinesBody)) =
     \<lparr>store = plain ''EXPERIENCE\<newline> | \<newline>Acme\<newline>Initech\<newline>\<newline>'',
      trace = [Warned [DeleteContentRange 33 34], Sent [DeleteContentRange 21 25]]\<rparr>"
proof -
  let ?r = "start (plain barLinesBody)"
  let ?doc = "render (plain barLinesBody)"
  have wf: "\<forall>s content. body_content (documents_get memoryStore s) = Some content \<longrightarrow>
      distinct (startOffsets content)"
    using render_distinct by blast
  have c0: "body_content (documents_get memoryStore (store ?r)) = Some barLinesBlocks"
    by (simp add: memoryStore_def start_def render_def barLinesBlocks_def)
  have c: "body_content ?doc = Some barLinesBlocks"
    by (simp add: render_def barLinesBlocks_def)
  have d: "distinct (startOffsets barLinesBlocks)" by code_simp
  have ps: "sortDesc (collectParagraphs barLinesBlocks) =
      [(33, 34), (25, 33), (21, 25), (16, 21), (12, 16), (1, 12)]" by code_simp
  have b2: "blankOrBar (barLinesBlocks ! 2)" and a2: "adjacentToHeading barLinesBlocks [''EXPERIENCE''] 2"
    and r2: "paragraphRange (barLinesBlocks ! 2) = Some (12, 16)"
    and b4: "blankOrBar (barLinesBlocks ! 4)" and a4: "\<not> adjacentToHeading barLinesBlocks [''EXPERIENCE''] 4"
    and r4: "paragraphRange (barLinesBlocks ! 4) = Some (21, 25)"
    and l: "2 < length barLinesBlocks" "4 < length barLinesBlocks"
    by code_simp+
  note T = sweeper_keeps_heading_spacing [OF wf c0, of "[''EXPERIENCE'']"]
  from T have S: "\<forall>i s e. i < length barLinesBlocks \<and> paragraphRange (barLinesBlocks ! i) = Some (s, e) \<and>
        blankOrBar (barLinesBlocks ! i) \<longrightarrow>
      sweepRequests ?doc [''EXPERIENCE''] (s, e) =
        (if adjacentToHeading barLinesBlocks [''EXPERIENCE''] i then [] else [DeleteContentRange s e])"
    using c d by blast
  from S l(1) r2 b2 a2 have s2: "sweepRequests ?doc [''EXPERIENCE''] (12, 16) = []" by simp
  from S l(2) r4 b4 a4
  have s4: "sweepRequests ?doc [''EXPERIENCE''] (21, 25) = [DeleteContentRange 21 25]" by simp
  have run: "removeEmptyBarLinesOneByOne memoryStore [''EXPERIENCE''] ?r =
     \<lparr>store = plain ''EXPERIENCE\<newline> | \<newline>Acme\<newline>Initech\<newline>\<newline>'',
      trace = [Warned [DeleteContentRange 33 34], Sent [DeleteContentRange 21 25]]\<rparr>"
    by code_simp
  from c0 ps b2 a2 s2 b4 a4 s4 run show ?thesis by (intro conjI)
qed

text \<open>
  Claim C2 as stated fails, both ways. A blank paragraph that is adjacent to no heading
  and carries no start offset is not a candidate, and the sweeper sends nothing. And in
  a snapshot where a block without a paragraph shares its start offset with the blank
  paragraph before the retained heading EXPERIENCE, the adjacency check looks at the
  neighbours of that other block, and the sweeper deletes the blank paragraph.
\<close>

theorem sweeper_skips_block_without_offset:
  "blankOrBar (blankWithoutStart ! 1) \<and> \<not> adjacentToHeading blankWithoutStart [''EXPERIENCE''] 1 \<and>
   map (sweepRequests \<lparr>body_content = Some blankWithoutStart\<rparr> [''EXPERIENCE''])
     (sortDesc (collectParagraphs blankWithoutStart)) = [[], []] \<and>
   trace (removeEmptyBarLinesOneByOne (constStore \<lparr>body_content = Some blankWithoutStart\<rparr>)
     [''EXPERIENCE''] \<lparr>store = (), trace = []\<rparr>) = [] \<and>
   blankOrBar (sharedStart ! 2) \<and> adjacentToHeading sharedStart [''EXPERIENCE''] 2 \<and>
   paragraphRange (sharedStart ! 2) = Some (7, 8) \<and>
   sweepRequests \<lparr>body_content = Some sharedStart\<rparr> [''EXPERIENCE''] (7, 8) =
     [DeleteContentRange 7 8] \<and>
   trace (removeEmptyBarLinesOneByOne (constStore \<lparr>body_content = Some sharedStart\<rparr>)
     [''EXPERIENCE''] \<lparr>store = (), trace = []\<rparr>) = [Sent [DeleteContentRange 7 8]]"
  by code_simp

section \<open>Properties of the SeparatorFixer\<close>


lemma concat_map_if: "concat (map (\<lambda>x. if P x then [f x] else []) xs) = map f (filter P xs)"
  by (induction xs) simp_all






section \<open>Properties of the PlaceholderResolver and the MarkerStyler on a finished document\<close>

lemma placeholderAt_Some:
  assumes "placeholderAt s = Some m"
  shows "\<exists>name post. m = ''{{'' @ name @ ''}}'' \<and> s = m @ post \<and> name \<noteq> [] \<and> list_all notBrace name"
proof -
  let ?name = "takeWhile notBrace (drop 2 s)"
  let ?rest = "dropWhile notBrace (drop 2 s)"
  from assms have p1: "prefix ''{{'' s" and ne: "?name \<noteq> []" and p2: "prefix ''}}'' ?rest"
    and m: "m = ''{{'' @ ?name @ ''}}''"
    by (auto simp: placeholderAt_def Let_def split: if_splits)
  from p1 have s: "s = ''{{'' @ drop 2 s" by (auto simp: prefix_def)
  from p2 obtain post where r: "?rest = ''}}'' @ post" by (auto simp: prefix_def)
  have "drop 2 s = ?name @ ?rest" by simp
  with s r have "s = ''{{'' @ ?name @ ''}}'' @ post" by metis
  moreover have "list_all notBrace ?name" by (simp add: list_all_iff) (meson set_takeWhileD)
  ultimately show ?thesis using m ne by auto
qed

lemma hasSlotToken_Cons: "hasSlotToken s \<Longrightarrow> hasSlotToken (c # s)"
proof -
  assume "hasSlotToken s"
  then obtain pre name post where "s = pre @ ''{{'' @ name @ ''}}'' @ post" "name \<noteq> []"
    "list_all notBrace name" by (auto simp: hasSlotToken_def)
  then have "c # s = (c # pre) @ ''{{'' @ name @ ''}}'' @ post \<and> name \<noteq> [] \<and> list_all notBrace name"
    by simp
  then show ?thesis unfolding hasSlotToken_def by blast
qed

lemma hasSlotToken_append: "hasSlotToken s \<Longrightarrow> hasSlotToken (a @ s @ b)"
proof -
  assume "hasSlotToken s"
  then obtain pre name post where "s = pre @ ''{{'' @ name @ ''}}'' @ post" "name \<noteq> []"
    "list_all notBrace name" by (auto simp: hasSlotToken_def)
  then have "a @ s @ b = (a @ pre) @ ''{{'' @ name @ ''}}'' @ (post @ b) \<and> name \<noteq> [] \<and>
      list_all notBrace name" by simp
  then show ?thesis unfolding hasSlotToken_def by blast
qed

lemma matchPlaceholders_sound: "matchPlaceholders s \<noteq> [] \<Longrightarrow> hasSlotToken s"
proof (induction s rule: matchPlaceholders.induct)
  case 1
  then show ?case by simp
next
  case (2 c cs)
  show ?case
  proof (cases "placeholderAt (c # cs)")
    case None
    with "2.prems" have "matchPlaceholders cs \<noteq> []" by simp
    from "2.IH"(1) [OF None this] show ?thesis by (rule hasSlotToken_Cons)
  next
    case (Some m)
    from placeholderAt_Some [OF this] obtain name post where
      "c # cs = ''{{'' @ name @ ''}}'' @ post" "name \<noteq> []" "list_all notBrace name" by auto
    then have "c # cs = [] @ ''{{'' @ name @ ''}}'' @ post \<and> name \<noteq> [] \<and> list_all notBrace name"
      by simp
    then show ?thesis unfolding hasSlotToken_def by blast
  qed
qed

lemma runContent_in_text:
  "paragraphElements item = Some els \<Longrightarrow> el \<in> set els \<Longrightarrow>
     \<exists>a b. getParagraphText item = a @ runContent el @ b"
proof -
  assume p: "paragraphElements item = Some els" and "el \<in> set els"
  then obtain xs ys where "els = xs @ el # ys" by (auto simp: in_set_conv_decomp)
  then have "concat (map runContent els) =
      concat (map runContent xs) @ runContent el @ concat (map runContent ys)" by simp
  with p show ?thesis by (auto simp: getParagraphText_def)
qed

lemma textRuns_in_text:
  "c \<in> set (textRuns content) \<Longrightarrow> \<exists>item \<in> set content. \<exists>a b. getParagraphText item = a @ c @ b"
proof -
  assume "c \<in> set (textRuns content)"
  then obtain item where i: "item \<in> set content"
    and c: "c \<in> set (case paragraphElements item of None \<Rightarrow> [] | Some els \<Rightarrow> map runContent els)"
    by (auto simp: textRuns_def)
  then obtain els where e: "paragraphElements item = Some els"
    by (cases "paragraphElements item") auto
  with c obtain el where "el \<in> set els" "c = runContent el" by auto
  with runContent_in_text [OF e] i show ?thesis by blast
qed

lemma addAll_Nil: "addAll acc [] = acc"
  by simp

lemma foldl_addAll_empty: "\<forall>ms \<in> set mss. ms = [] \<Longrightarrow> foldl addAll acc mss = acc"
  by (induction mss arbitrary: acc) simp_all

lemma findPlaceholders_none:
  assumes "\<forall>item \<in> set content. \<not> hasSlotToken (getParagraphText item)"
  shows "findPlaceholders content = []"
proof -
  have "matchPlaceholders c = []" if "c \<in> set (textRuns content)" for c
  proof (rule ccontr)
    assume "matchPlaceholders c \<noteq> []"
    then have t: "hasSlotToken c" by (rule matchPlaceholders_sound)
    from textRuns_in_text [OF that] obtain item a b where "item \<in> set content"
      "getParagraphText item = a @ c @ b" by blast
    with hasSlotToken_append [OF t, of a b] assms show False by auto
  qed
  then show ?thesis unfolding findPlaceholders_def by (intro foldl_addAll_empty) auto
qed

lemma indexOfScan_prefix:
  "indexOfScan t s i = Some pos \<Longrightarrow> i \<le> pos \<and> prefix t (drop (pos - i) s)"
proof (induction s arbitrary: i)
  case Nil
  then show ?case by (simp split: if_splits)
next
  case (Cons c cs)
  show ?case
  proof (cases "prefix t (c # cs)")
    case True
    with Cons.prems show ?thesis by simp
  next
    case False
    with Cons.prems have "indexOfScan t cs (Suc i) = Some pos" by simp
    from Cons.IH [OF this] have "Suc i \<le> pos" "prefix t (drop (pos - Suc i) cs)" by auto
    moreover from this(1) have "pos - i = Suc (pos - Suc i)" by arith
    ultimately show ?thesis by simp
  qed
qed

lemma markerAt_Some:
  assumes "markerAt s = Some (entire, payload)"
  shows "\<exists>ident post. entire = ''@@BOLD-'' @ ident @ ''@@'' @ payload @ ''@@BOLD-'' @ ident @ ''-END@@'' \<and>
     s = entire @ post \<and> ident \<noteq> [] \<and> list_all isIdChar ident \<and> payload \<noteq> []"
proof -
  define ident where "ident = takeWhile isIdChar (drop 7 s)"
  define rest where "rest = dropWhile isIdChar (drop 7 s)"
  define body where "body = drop 2 rest"
  define closing where "closing = ''@@BOLD-'' @ ident @ ''-END@@''"
  have p1: "prefix ''@@BOLD-'' s"
  proof (rule ccontr)
    assume "\<not> prefix ''@@BOLD-'' s"
    then have "markerAt s = None" unfolding markerAt_def by (simp only: if_False)
    with assms show False by simp
  qed
  have m2: "markerAt s =
      (if ident \<noteq> [] \<and> prefix ''@@'' rest then
         (case indexOfScan closing (drop 1 body) 1 of
            None \<Rightarrow> None
          | Some k \<Rightarrow> if body = [] then None
                      else Some (''@@BOLD-'' @ ident @ ''@@'' @ take k body @ closing, take k body))
       else None)"
    unfolding markerAt_def Let_def closing_def body_def rest_def ident_def
    using p1 by (simp only: if_True)
  have p2: "ident \<noteq> [] \<and> prefix ''@@'' rest"
  proof (rule ccontr)
    assume "\<not> (ident \<noteq> [] \<and> prefix ''@@'' rest)"
    then have "markerAt s = None" unfolding m2 by (simp only: if_False)
    with assms show False by simp
  qed
  have m3: "markerAt s =
      (case indexOfScan closing (drop 1 body) 1 of
         None \<Rightarrow> None
       | Some k \<Rightarrow> if body = [] then None
                   else Some (''@@BOLD-'' @ ident @ ''@@'' @ take k body @ closing, take k body))"
    unfolding m2 using p2 by (simp only: if_True simp_thms)
  obtain k where k: "indexOfScan closing (drop 1 body) 1 = Some k"
  proof (cases "indexOfScan closing (drop 1 body) 1")
    case None
    then have "markerAt s = None" unfolding m3 by (simp only: option.case)
    with assms show ?thesis by simp
  next
    case (Some k)
    then show ?thesis by (rule that)
  qed
  have m4: "markerAt s =
      (if body = [] then None
       else Some (''@@BOLD-'' @ ident @ ''@@'' @ take k body @ closing, take k body))"
    unfolding m3 k by (simp only: option.case)
  have bn: "body \<noteq> []"
  proof
    assume "body = []"
    then have "markerAt s = None" unfolding m4 by (simp only: if_True simp_thms)
    with assms show False by simp
  qed
  have "markerAt s = Some (''@@BOLD-'' @ ident @ ''@@'' @ take k body @ closing, take k body)"
    unfolding m4 using bn by (simp only: if_False simp_thms)
  with assms have "Some (entire, payload) =
      Some (''@@BOLD-'' @ ident @ ''@@'' @ take k body @ closing, take k body)" by (simp only:)
  then have e0: "entire = ''@@BOLD-'' @ ident @ ''@@'' @ take k body @ closing"
    and p: "payload = take k body" by (simp_all only: option.inject prod.inject)
  have e: "entire = ''@@BOLD-'' @ ident @ ''@@'' @ payload @ closing" unfolding e0 p ..
  from indexOfScan_prefix [OF k] have k1: "1 \<le> k" and "prefix closing (drop (k - 1) (drop 1 body))"
    by auto
  then have "prefix closing (drop k body)" by simp
  then obtain post where d: "drop k body = closing @ post" unfolding prefix_def by blast
  have b: "body = payload @ closing @ post" using d p by (metis append_take_drop_id)
  from p1 obtain s7 where s: "s = ''@@BOLD-'' @ s7" unfolding prefix_def by blast
  then have s7: "drop 7 s = s7" by simp
  from p2 obtain r2 where r: "rest = ''@@'' @ r2" unfolding prefix_def by blast
  then have "body = r2" by (simp add: body_def)
  with r have r': "rest = ''@@'' @ body" by simp
  have "s7 = ident @ rest" unfolding ident_def rest_def s7 by simp
  then have "s = ''@@BOLD-'' @ ident @ ''@@'' @ payload @ closing @ post"
    unfolding s r' using b by simp
  then have se: "s = entire @ post" unfolding e by simp
  have li: "list_all isIdChar ident" unfolding ident_def list_all_iff
    by (meson set_takeWhileD)
  have pn: "payload \<noteq> []" using p bn k1 by (cases body) auto
  from e se p2 li pn show ?thesis unfolding closing_def by blast
qed

lemma hasMarkerSpan_Cons: "hasMarkerSpan s \<Longrightarrow> hasMarkerSpan (c # s)"
proof -
  assume "hasMarkerSpan s"
  then obtain pre ident payload post where
    "s = pre @ ''@@BOLD-'' @ ident @ ''@@'' @ payload @ ''@@BOLD-'' @ ident @ ''-END@@'' @ post"
    "ident \<noteq> []" "list_all isIdChar ident" "payload \<noteq> []" by (auto simp: hasMarkerSpan_def)
  then have "c # s = (c # pre) @ ''@@BOLD-'' @ ident @ ''@@'' @ payload @ ''@@BOLD-'' @ ident @ ''-END@@'' @ post \<and>
      ident \<noteq> [] \<and> list_all isIdChar ident \<and> payload \<noteq> []" by simp
  then show ?thesis unfolding hasMarkerSpan_def by blast
qed

lemma matchMarker_sound: "matchMarker s = Some m \<Longrightarrow> hasMarkerSpan s"
proof (induction s)
  case Nil
  then show ?case by simp
next
  case (Cons c cs)
  show ?case
  proof (cases "markerAt (c # cs)")
    case None
    with Cons.prems have "matchMarker cs = Some m" by simp
    from Cons.IH [OF this] show ?thesis by (rule hasMarkerSpan_Cons)
  next
    case (Some m')
    obtain entire payload where "m' = (entire, payload)" by (cases m')
    with Some markerAt_Some [of "c # cs" entire payload] obtain ident post where
      "c # cs = (''@@BOLD-'' @ ident @ ''@@'' @ payload @ ''@@BOLD-'' @ ident @ ''-END@@'') @ post"
      "ident \<noteq> []" "list_all isIdChar ident" "payload \<noteq> []" by auto
    then have "c # cs = [] @ ''@@BOLD-'' @ ident @ ''@@'' @ payload @ ''@@BOLD-'' @ ident @ ''-END@@'' @ post \<and>
      ident \<noteq> [] \<and> list_all isIdChar ident \<and> payload \<noteq> []" by simp
    then show ?thesis unfolding hasMarkerSpan_def by blast
  qed
qed

lemma findFirstMarker_none:
  "\<forall>item \<in> set content. \<not> hasMarkerSpan (getParagraphText item) \<Longrightarrow> findFirstMarker content = None"
proof (induction content)
  case Nil
  then show ?case by simp
next
  case (Cons item items)
  then have "matchMarker (getParagraphText item) = None"
    using matchMarker_sound [of "getParagraphText item"] by (cases "matchMarker (getParagraphText item)") auto
  with Cons show ?case by simp
qed

lemma hasSlotToken_brace: "hasSlotToken s \<Longrightarrow> CHR ''{'' \<in> set s"
  by (auto simp: hasSlotToken_def)

lemma hasMarkerSpan_at: "hasMarkerSpan s \<Longrightarrow> CHR ''@'' \<in> set s"
  by (auto simp: hasMarkerSpan_def)

text \<open>
  Claim C8. When no block text of the snapshot holds a slot token or a marker span, the
  PlaceholderResolver and then the MarkerStyler end with the run as it was: no batch is
  sent, and the store is unchanged.
\<close>

theorem resolver_and_styler_noop:
  assumes "\<forall>t \<in> set (docTexts (documents_get api (store r))). \<not> hasSlotToken t \<and> \<not> hasMarkerSpan t"
  shows "doReplacePlaceholders api data r = Inr r \<and> applyBoldMarkers api r = Inr r"
proof (cases "body_content (documents_get api (store r))")
  case None
  then show ?thesis by (simp add: doReplacePlaceholders_def applyBoldMarkers_def)
next
  case (Some content)
  with assms have a: "\<forall>item \<in> set content. \<not> hasSlotToken (getParagraphText item)"
    and b: "\<forall>item \<in> set content. \<not> hasMarkerSpan (getParagraphText item)"
    by (auto simp: docTexts_def)
  from findPlaceholders_none [OF a] Some have "doReplacePlaceholders api data r = Inr r"
    by (simp add: doReplacePlaceholders_def)
  moreover from findFirstMarker_none [OF b] Some have "applyBoldMarkers api r = Inr r"
    by (simp add: applyBoldMarkers_def Let_def applyBoldPasses.simps)
  ultimately show ?thesis by simp
qed

text \<open>The theorem on the reference store, at a body of two plain lines.\<close>

theorem resolver_and_styler_noop_witness:
  "doReplacePlaceholders memoryStore Map.empty (start (plain ''Hello\<newline>World\<newline>'')) =
     Inr (start (plain ''Hello\<newline>World\<newline>'')) \<and>
   applyBoldMarkers memoryStore (start (plain ''Hello\<newline>World\<newline>'')) =
     Inr (start (plain ''Hello\<newline>World\<newline>''))"
proof -
  let ?r = "start (plain ''Hello\<newline>World\<newline>'')"
  have t: "docTexts (documents_get memoryStore (store ?r)) = ['''', ''Hello\<newline>'', ''World\<newline>'']"
    by code_simp
  have "\<forall>t \<in> set (docTexts (documents_get memoryStore (store ?r))). \<not> hasSlotToken t \<and> \<not> hasMarkerSpan t"
    unfolding t using hasSlotToken_brace hasMarkerSpan_at by fastforce
  from resolver_and_styler_noop [OF this] show ?thesis by blast
qed

section \<open>The pipeline on failing inputs\<close>

lemma stripBold_Nil: "stripBold [] = []"
  by simp

lemma includesStr_not_inherited:
  "includesStr key ''experience_point_'' \<or> includesStr key ''project_point_'' \<or>
   key = ''technical_skills'' \<or> key = ''language_skills'' \<Longrightarrow> key \<notin> set objectPrototypeKeys"
  by (auto simp: objectPrototypeKeys_def includesStr_def indexOf_def)

text \<open>
  The resolution policy, for a key that names no member of \<^verbatim>\<open>Object.prototype\<close> or is a
  field of the data: the removal marker for an empty experience or project point, the
  value as it is for the two skills keys, the value without its bold delimiters
  otherwise.
\<close>

lemma placeholderRequest_policy:
  assumes "slotKey p \<notin> set objectPrototypeKeys \<or> data (slotKey p) \<noteq> None"
  shows "placeholderRequest data p =
     Inr (ReplaceAllText p
       (if (includesStr (slotKey p) ''experience_point_'' \<or> includesStr (slotKey p) ''project_point_'') \<and>
           fieldOr data (slotKey p) = []
        then ''##EMPTY_LINE_TO_REMOVE##''
        else if slotKey p = ''technical_skills'' \<or> slotKey p = ''language_skills''
        then fieldOr data (slotKey p)
        else stripBold (fieldOr data (slotKey p))))"
proof (cases "data (slotKey p)")
  case None
  with assms have "getField data (slotKey p) = JSUndefined" by (simp add: getField_def)
  with None show ?thesis
    by (simp add: placeholderRequest_def Let_def orEmpty_def falsy_def fieldOr_def)
next
  case (Some v)
  then have "getField data (slotKey p) = JSString v" by (simp add: getField_def)
  with Some show ?thesis
    by (simp add: placeholderRequest_def Let_def orEmpty_def falsy_def fieldOr_def)
qed

text \<open>
  A key that is no field of the data (or an empty one), no point key and no member of
  \<^verbatim>\<open>Object.prototype\<close>: every occurrence of the token is replaced by the empty string.
\<close>

lemma placeholderRequest_unknown_key:
  assumes "slotKey p \<notin> set objectPrototypeKeys" and "fieldOr data (slotKey p) = []"
    and "\<not> includesStr (slotKey p) ''experience_point_''"
    and "\<not> includesStr (slotKey p) ''project_point_''"
  shows "placeholderRequest data p = Inr (ReplaceAllText p [])"
  using placeholderRequest_policy [of p data] assms by simp

text \<open>
  Claim C7 fails on the code. On a store whose every \<^verbatim>\<open>batchUpdate\<close> throws, the marker
  cleanup logs a warning and goes on, as the claim says; the substitution batch, the
  marker replacement and the separator batch are sent outside any \<^verbatim>\<open>try\<close> block, and
  the exception ends the pipeline.
\<close>

theorem batch_failure_aborts_pipeline:
  "removeEmptyMarkers failingStore (start (plain ''{{name}}\<newline>'')) =
     \<lparr>store = plain ''{{name}}\<newline>'',
      trace = [Warned [ReplaceAllText ''##EMPTY_LINE_TO_REMOVE##'' []]]\<rparr> \<and>
   replacePlaceholders failingStore janeDoe None (Some []) (start (plain ''{{name}}\<newline>'')) =
     Inl (BatchUpdateError [ReplaceAllText ''{{name}}'' ''Jane Doe'']) \<and>
   applyBoldMarkers failingStore (start (plain ''@@BOLD-a1@@Jest@@BOLD-a1-END@@\<newline>'')) =
     Inl (BatchUpdateError [ReplaceAllText ''@@BOLD-a1@@Jest@@BOLD-a1-END@@'' ''Jest'']) \<and>
   fixCompanyLocationBars failingStore acmeRemote (start (plain ''Acme Remote\<newline>'')) =
     Inl (BatchUpdateError [ReplaceAllText ''Acme Remote'' ''Acme | Remote''])"
  by code_simp

text \<open>
  Claim C6 fails on the code. The token of an empty experience point becomes the removal
  marker; the cleanup then replaces the marker text by the empty string, and the line
  stays in the document as an empty paragraph. Under a retained heading the sweeper
  keeps that paragraph, so it is there at the end of the pipeline too.
\<close>

theorem marker_cleanup_keeps_line:
  "doReplacePlaceholders memoryStore Map.empty
       (start (plain ''Acme\<newline>{{experience_point_1_3}}\<newline>End\<newline>'')) =
     Inr \<lparr>store = plain ''Acme\<newline>##EMPTY_LINE_TO_REMOVE##\<newline>End\<newline>'',
          trace = [Sent [ReplaceAllText ''{{experience_point_1_3}}'' ''##EMPTY_LINE_TO_REMOVE##'']]\<rparr> \<and>
   store (removeEmptyMarkers memoryStore
       (start (plain ''Acme\<newline>##EMPTY_LINE_TO_REMOVE##\<newline>End\<newline>''))) =
     plain ''Acme\<newline>\<newline>End\<newline>'' \<and>
   map_sum id store (replacePlaceholders memoryStore Map.empty None (Some [''EXPERIENCE''])
       (start (plain ''EXPERIENCE\<newline>{{experience_point_1_1}}\<newline>End\<newline>''))) =
     Inr (plain ''EXPERIENCE\<newline>\<newline>End\<newline>'')"
  by code_simp

text \<open>
  Claim C10 fails on the code. \<^verbatim>\<open>toString\<close> is no field of the data, but every object
  inherits a member of that name: the value is not a string, and \<^verbatim>\<open>value.replace\<close>
  throws.
\<close>

theorem unknown_key_raises:
  "doReplacePlaceholders memoryStore Map.empty (start (plain ''Dear {{toString}}\<newline>'')) =
     Inl TypeError"
  by code_simp

text \<open>
  Claim C3 fails on the code. Two distinct tokens are found; the second names an inherited
  member, the loop throws there and no request is built for either.
\<close>

theorem no_request_for_inherited_key:
  "findPlaceholders (the (body_content (render (plain ''{{name}} {{constructor}}\<newline>'')))) =
     [''{{name}}'', ''{{constructor}}''] \<and>
   placeholderRequests janeDoe [''{{name}}'', ''{{constructor}}''] = Inl TypeError \<and>
   doReplacePlaceholders memoryStore janeDoe (start (plain ''{{name}} {{constructor}}\<newline>'')) =
     Inl TypeError"
  by code_simp

section \<open>Properties of the MarkerStyler\<close>

lemma sendChunks_Nil: "sendChunks api [] r = r"
  by (subst sendChunks.simps) simp

lemma applyBoldPasses_ceiling: "\<not> n < 50 \<Longrightarrow> applyBoldPasses api n doc r = Inr r"
  by (subst applyBoldPasses.simps) simp

lemma applyBoldPasses_none: "findMarker doc = None \<Longrightarrow> applyBoldPasses api n doc r = Inr r"
  by (subst applyBoldPasses.simps) (cases "body_content doc"; simp add: findMarker_def)

lemma findMarker_Some:
  "findMarker doc = Some m \<Longrightarrow> \<exists>content. body_content doc = Some content \<and> findFirstMarker content = Some m"
  by (cases "body_content doc") (simp_all add: findMarker_def)

lemma applyBoldPasses_rejected:
  assumes "n < 50" "findMarker doc = Some (e, p)" "sendBatch api [ReplaceAllText e p] r = Inl f"
  shows "applyBoldPasses api n doc r = Inl f"
proof -
  from findMarker_Some [OF assms(2)] obtain content where "body_content doc = Some content"
    "findFirstMarker content = Some (e, p)" by blast
  with assms(1,3) show ?thesis by (subst applyBoldPasses.simps) simp
qed

lemma applyBoldPasses_no_content:
  assumes "n < 50" "findMarker doc = Some (e, p)" "sendBatch api [ReplaceAllText e p] r = Inr r1"
    "body_content (documents_get api (store r1)) = None"
  shows "applyBoldPasses api n doc r = Inr r1"
proof -
  from findMarker_Some [OF assms(2)] obtain content where "body_content doc = Some content"
    "findFirstMarker content = Some (e, p)" by blast
  with assms(1,3,4) show ?thesis by (subst applyBoldPasses.simps) (simp add: Let_def)
qed

lemma applyBoldPasses_step:
  assumes "n < 50" "findMarker doc = Some (e, p)" "sendBatch api [ReplaceAllText e p] r = Inr r1"
    "body_content (documents_get api (store r1)) = Some content1"
  shows "applyBoldPasses api n doc r =
     applyBoldPasses api (Suc n) (documents_get api (store (afterStyle api p r1))) (afterStyle api p r1)"
proof -
  from findMarker_Some [OF assms(2)] obtain content where c: "body_content doc = Some content"
    "findFirstMarker content = Some (e, p)" by blast
  show ?thesis
  proof (cases "trim p = []")
    case True
    then have "afterStyle api p r1 = r1" using assms(4) by (simp add: afterStyle_def)
    then show ?thesis using assms c True
      by (subst applyBoldPasses.simps) (simp add: Let_def)
  next
    case False
    show ?thesis
    proof (cases "boldRequestsFor content1 p = []")
      case True
      then have "afterStyle api p r1 = r1" using assms(4) False by (simp add: afterStyle_def sendChunks_Nil)
      then show ?thesis using assms c False True
        by (subst applyBoldPasses.simps) (simp add: Let_def)
    next
      case ne: False
      have "afterStyle api p r1 = sendChunks api (boldRequestsFor content1 p) r1"
        using assms(4) False by (simp add: afterStyle_def)
      then show ?thesis using assms c False ne
        by (subst applyBoldPasses.simps) (simp add: Let_def)
    qed
  qed
qed

lemma boldRangesFrom_style: "list_all isStyleRequest (boldRangesFrom c t base i)"
proof (induction c t base i rule: boldRangesFrom.induct)
  case (1 c t base i)
  show ?case
  proof (cases "t = []")
    case True
    then show ?thesis by (subst boldRangesFrom.simps) simp
  next
    case False
    show ?thesis
    proof (cases "indexOf c t i")
      case None
      with False show ?thesis by (subst boldRangesFrom.simps) simp
    next
      case (Some pos)
      with False "1.IH" [OF False Some] show ?thesis by (subst boldRangesFrom.simps) simp
    qed
  qed
qed

lemma boldRequestsFor_style: "list_all isStyleRequest (boldRequestsFor content t)"
proof -
  have el: "list_all isStyleRequest (elementBoldRequests t e)" for e
    by (cases "pe_startIndex e") (simp_all add: elementBoldRequests_def boldRangesFrom_style)
  have els: "list_all isStyleRequest (concat (map (elementBoldRequests t) es))" for es
    by (induction es) (simp_all add: el)
  have "list_all isStyleRequest
      (case paragraphElements item of
         None \<Rightarrow> []
       | Some es \<Rightarrow> if includesStr (getParagraphText item) t
                    then concat (map (elementBoldRequests t) es) else [])" for item
    by (cases "paragraphElements item") (simp_all add: els)
  then show ?thesis unfolding boldRequestsFor_def by (induction content) simp_all
qed

lemma style_not_replace: "list_all isStyleRequest reqs \<Longrightarrow> \<not> isReplaceBatch (Sent reqs)"
proof (cases reqs)
  case Nil
  then show ?thesis by simp
next
  case (Cons q qs)
  assume "list_all isStyleRequest reqs"
  with Cons have "isStyleRequest q" by simp
  then show ?thesis using Cons by (cases q; cases qs) simp_all
qed

lemma tryBatch_style:
  assumes c: "storeContract api I" and i: "I (store r)" and s: "list_all isStyleRequest reqs"
  shows "I (store (tryBatch api reqs r)) \<and>
     markerSpans (documents_get api (store (tryBatch api reqs r))) \<le>
       markerSpans (documents_get api (store r)) \<and>
     passesIn (trace (tryBatch api reqs r)) = passesIn (trace r) \<and>
     (\<exists>ev. trace (tryBatch api reqs r) = trace r @ [ev] \<and> requestsOf ev = reqs)"
proof (cases "documents_batchUpdate api reqs (store r)")
  case None
  then show ?thesis using i by (simp add: tryBatch_def passesIn_def)
next
  case (Some s')
  from c i s Some have "I s' \<and> markerSpans (documents_get api s') \<le> markerSpans (documents_get api (store r))"
    unfolding storeContract_def by blast
  then show ?thesis using Some style_not_replace [OF s] by (simp add: tryBatch_def passesIn_def)
qed

lemma sendChunks_unfold:
  "reqs \<noteq> [] \<Longrightarrow> sendChunks api reqs r = sendChunks api (drop 10 reqs) (tryBatch api (take 10 reqs) r)"
  by (subst sendChunks.simps) simp

lemma sendChunks_style:
  assumes c: "storeContract api I"
  shows "I (store r) \<Longrightarrow> list_all isStyleRequest reqs \<Longrightarrow>
     I (store (sendChunks api reqs r)) \<and>
     markerSpans (documents_get api (store (sendChunks api reqs r))) \<le>
       markerSpans (documents_get api (store r)) \<and>
     passesIn (trace (sendChunks api reqs r)) = passesIn (trace r)"
proof (induction "length reqs" arbitrary: reqs r rule: less_induct)
  case less
  show ?case
  proof (cases "reqs = []")
    case True
    then show ?thesis using less.prems by (simp add: sendChunks_Nil)
  next
    case False
    let ?r1 = "tryBatch api (take 10 reqs) r"
    have t: "list_all isStyleRequest (take 10 reqs)" and d: "list_all isStyleRequest (drop 10 reqs)"
      using less.prems(2) by (auto simp: list_all_iff dest: in_set_takeD in_set_dropD)
    from tryBatch_style [OF c less.prems(1) t]
    have i1: "I (store ?r1)"
      and m1: "markerSpans (documents_get api (store ?r1)) \<le> markerSpans (documents_get api (store r))"
      and p1: "passesIn (trace ?r1) = passesIn (trace r)" by blast+
    have "length (drop 10 reqs) < length reqs" using False by (cases reqs) simp_all
    from less.hyps [OF this i1 d] m1 p1
    have "I (store (sendChunks api (drop 10 reqs) ?r1)) \<and>
       markerSpans (documents_get api (store (sendChunks api (drop 10 reqs) ?r1)))
         \<le> markerSpans (documents_get api (store r)) \<and>
       passesIn (trace (sendChunks api (drop 10 reqs) ?r1)) = passesIn (trace r)"
      by auto
    then show ?thesis unfolding sendChunks_unfold [OF False] .
  qed
qed

lemma afterStyle_contract:
  assumes c: "storeContract api I" and i: "I (store r1)"
  shows "I (store (afterStyle api p r1)) \<and>
     markerSpans (documents_get api (store (afterStyle api p r1))) \<le>
       markerSpans (documents_get api (store r1)) \<and>
     passesIn (trace (afterStyle api p r1)) = passesIn (trace r1)"
proof (cases "body_content (documents_get api (store r1))")
  case None
  then show ?thesis using i by (simp add: afterStyle_def)
next
  case (Some content1)
  show ?thesis
  proof (cases "trim p = []")
    case True
    with Some i show ?thesis by (simp add: afterStyle_def)
  next
    case False
    with Some have "afterStyle api p r1 = sendChunks api (boldRequestsFor content1 p) r1"
      by (simp add: afterStyle_def)
    with sendChunks_style [OF c i boldRequestsFor_style, of content1 p] show ?thesis by simp
  qed
qed

lemma passesIn_replace: "passesIn (tr @ [Sent [ReplaceAllText e p]]) = Suc (passesIn tr)"
  by (simp add: passesIn_def)

lemma findMarker_no_content: "body_content doc = None \<Longrightarrow> findMarker doc = None"
  by (simp add: findMarker_def)

lemma applyBoldPasses_contract:
  assumes c: "storeContract api I"
  shows "I (store r) \<Longrightarrow> doc = documents_get api (store r) \<Longrightarrow>
     \<exists>r'. applyBoldPasses api n doc r = Inr r' \<and> I (store r') \<and>
       passesIn (trace r) \<le> passesIn (trace r') \<and>
       passesIn (trace r') + markerSpans (documents_get api (store r')) \<le>
         passesIn (trace r) + markerSpans doc \<and>
       passesIn (trace r') \<le> passesIn (trace r) + (50 - n) \<and>
       (passesIn (trace r') < passesIn (trace r) + (50 - n) \<longrightarrow>
          findMarker (documents_get api (store r')) = None)"
proof (induction k \<equiv> "50 - n" arbitrary: n doc r)
  case 0
  then have "\<not> n < 50" by simp
  from applyBoldPasses_ceiling [OF this, of api doc r] 0 show ?case by simp
next
  case (Suc k)
  then have n: "n < 50" and k: "k = 50 - Suc n" by simp_all
  note doc = \<open>doc = documents_get api (store r)\<close>
  show ?case
  proof (cases "findMarker doc")
    case None
    from applyBoldPasses_none [OF None, of api n r] None Suc.prems show ?thesis by simp
  next
    case (Some m)
    obtain e p where m: "m = (e, p)" by (cases m)
    with Some have fm: "findMarker doc = Some (e, p)" by simp
    with c Suc.prems obtain s' where s': "documents_batchUpdate api [ReplaceAllText e p] (store r) = Some s'"
      and is': "I s'" and lt: "markerSpans (documents_get api s') < markerSpans doc"
      unfolding storeContract_def by blast
    define r1 where "r1 = r\<lparr>store := s', trace := trace r @ [Sent [ReplaceAllText e p]]\<rparr>"
    have sb: "sendBatch api [ReplaceAllText e p] r = Inr r1"
      using s' by (simp add: sendBatch_def r1_def)
    have st1: "store r1 = s'" and p1: "passesIn (trace r1) = Suc (passesIn (trace r))"
      by (simp_all add: r1_def passesIn_replace)
    show ?thesis
    proof (cases "body_content (documents_get api (store r1))")
      case None
      from applyBoldPasses_no_content [OF n fm sb None]
      have "applyBoldPasses api n doc r = Inr r1" .
      moreover have "findMarker (documents_get api (store r1)) = None"
        using None by (rule findMarker_no_content)
      ultimately show ?thesis using is' lt p1 st1 n by simp
    next
      case (Some content1)
      let ?r2 = "afterStyle api p r1"
      from afterStyle_contract [OF c, of r1 p] is' st1
      have i2: "I (store ?r2)"
        and m2: "markerSpans (documents_get api (store ?r2)) \<le> markerSpans (documents_get api s')"
        and p2: "passesIn (trace ?r2) = passesIn (trace r1)" by simp_all
      from Suc.hyps(1) [OF k i2 refl] obtain r' where
        res: "applyBoldPasses api (Suc n) (documents_get api (store ?r2)) ?r2 = Inr r'"
        and ir: "I (store r')"
        and a: "passesIn (trace ?r2) \<le> passesIn (trace r')"
        and b: "passesIn (trace r') + markerSpans (documents_get api (store r')) \<le>
            passesIn (trace ?r2) + markerSpans (documents_get api (store ?r2))"
        and d: "passesIn (trace r') \<le> passesIn (trace ?r2) + (50 - Suc n)"
        and f: "passesIn (trace r') < passesIn (trace ?r2) + (50 - Suc n) \<longrightarrow>
            findMarker (documents_get api (store r')) = None" by blast
      from applyBoldPasses_step [OF n fm sb Some] res
      have "applyBoldPasses api n doc r = Inr r'" by simp
      moreover have "passesIn (trace r) \<le> passesIn (trace r')" using a p1 p2 by simp
      moreover have "passesIn (trace r') + markerSpans (documents_get api (store r')) \<le>
          passesIn (trace r) + markerSpans doc" using b m2 lt p1 p2 by simp
      moreover have "passesIn (trace r') \<le> passesIn (trace r) + (50 - n)" using d p1 p2 n by simp
      moreover have "passesIn (trace r') < passesIn (trace r) + (50 - n) \<longrightarrow>
          findMarker (documents_get api (store r')) = None" using f p1 p2 n by simp
      ultimately show ?thesis using ir by blast
    qed
  qed
qed

lemma applyBoldMarkers_contract:
  assumes c: "storeContract api I" and i: "I (store r)"
  shows "\<exists>r'. applyBoldMarkers api r = Inr r' \<and> I (store r') \<and>
       passesIn (trace r) \<le> passesIn (trace r') \<and>
       passesIn (trace r') + markerSpans (documents_get api (store r')) \<le>
         passesIn (trace r) + markerSpans (documents_get api (store r)) \<and>
       passesIn (trace r') \<le> passesIn (trace r) + 50 \<and>
       (passesIn (trace r') < passesIn (trace r) + 50 \<longrightarrow>
          findMarker (documents_get api (store r')) = None)"
proof (cases "body_content (documents_get api (store r))")
  case None
  then have "applyBoldMarkers api r = Inr r" by (simp add: applyBoldMarkers_def)
  with i findMarker_no_content [OF None] show ?thesis by simp
next
  case (Some content)
  then have "applyBoldMarkers api r = applyBoldPasses api 0 (documents_get api (store r)) r"
    by (simp add: applyBoldMarkers_def)
  with applyBoldPasses_contract [OF c i refl, of 0] show ?thesis by simp
qed

lemma sendChunks_trace:
  "\<exists>evs. trace (sendChunks api reqs r) = trace r @ evs \<and> concat (map requestsOf evs) = reqs"
proof (induction "length reqs" arbitrary: reqs r rule: less_induct)
  case less
  show ?case
  proof (cases "reqs = []")
    case True
    then show ?thesis by (simp add: sendChunks_Nil)
  next
    case False
    let ?r1 = "tryBatch api (take 10 reqs) r"
    from tryBatch_trace [of api "take 10 reqs" r] obtain ev where
      ev: "trace ?r1 = trace r @ [ev]" "requestsOf ev = take 10 reqs" by blast
    have "length (drop 10 reqs) < length reqs" using False by (cases reqs) simp_all
    from less.hyps [OF this, of ?r1] obtain evs where
      evs: "trace (sendChunks api (drop 10 reqs) ?r1) = trace ?r1 @ evs"
        "concat (map requestsOf evs) = drop 10 reqs" by blast
    have "trace (sendChunks api reqs r) = trace r @ (ev # evs)"
      unfolding sendChunks_unfold [OF False] using ev(1) evs(1) by simp
    moreover have "concat (map requestsOf (ev # evs)) = reqs" using ev(2) evs(2) by simp
    ultimately show ?thesis by blast
  qed
qed

lemma style_events_no_pass:
  "list_all isStyleRequest (concat (map requestsOf evs)) \<Longrightarrow> passesIn (tr @ evs) = passesIn tr"
proof (induction evs arbitrary: tr)
  case Nil
  then show ?case by simp
next
  case (Cons ev evs)
  then have s: "list_all isStyleRequest (requestsOf ev)"
    and rest: "list_all isStyleRequest (concat (map requestsOf evs))" by simp_all
  have "\<not> isReplaceBatch ev"
  proof (cases ev)
    case (Sent reqs)
    with s style_not_replace [of reqs] show ?thesis by simp
  next
    case (Warned reqs)
    then show ?thesis by simp
  qed
  then have "passesIn (tr @ [ev]) = passesIn tr" by (simp add: passesIn_def)
  with Cons.IH [OF rest, of "tr @ [ev]"] show ?case by simp
qed

lemma afterStyle_trace:
  "\<exists>evs. trace (afterStyle api p r1) = trace r1 @ evs \<and>
     list_all isStyleRequest (concat (map requestsOf evs)) \<and>
     (\<forall>content1. body_content (documents_get api (store r1)) = Some content1 \<and> trim p \<noteq> [] \<longrightarrow>
        concat (map requestsOf evs) = boldRequestsFor content1 p)"
proof (cases "body_content (documents_get api (store r1))")
  case None
  then have "afterStyle api p r1 = r1" by (simp add: afterStyle_def)
  with None show ?thesis by simp
next
  case (Some content1)
  show ?thesis
  proof (cases "trim p = []")
    case True
    with Some have "afterStyle api p r1 = r1" by (simp add: afterStyle_def)
    with True show ?thesis by simp
  next
    case False
    with Some have a: "afterStyle api p r1 = sendChunks api (boldRequestsFor content1 p) r1"
      by (simp add: afterStyle_def)
    from sendChunks_trace [of api "boldRequestsFor content1 p" r1] obtain evs where
      "trace (sendChunks api (boldRequestsFor content1 p) r1) = trace r1 @ evs"
      "concat (map requestsOf evs) = boldRequestsFor content1 p" by blast
    with a Some boldRequestsFor_style [of content1 p] show ?thesis by auto
  qed
qed

lemma sendBatch_Inr:
  "sendBatch api reqs r = Inr r1 \<Longrightarrow> trace r1 = trace r @ [Sent reqs]"
  by (cases "documents_batchUpdate api reqs (store r)") (auto simp: sendBatch_def)

lemma applyBoldPasses_trace:
  "applyBoldPasses api n doc r = Inr r' \<Longrightarrow>
     (\<exists>tail. trace r' = trace r @ tail) \<and> passesIn (trace r') \<le> passesIn (trace r) + (50 - n)"
proof (induction k \<equiv> "50 - n" arbitrary: n doc r)
  case 0
  then have "\<not> n < 50" by simp
  from applyBoldPasses_ceiling [OF this, of api doc r] 0 show ?case by simp
next
  case (Suc k)
  then have n: "n < 50" and k: "k = 50 - Suc n" by simp_all
  note res = \<open>applyBoldPasses api n doc r = Inr r'\<close>
  show ?case
  proof (cases "findMarker doc")
    case None
    from applyBoldPasses_none [OF None, of api n r] res show ?thesis by simp
  next
    case (Some m)
    obtain e p where "m = (e, p)" by (cases m)
    with Some have fm: "findMarker doc = Some (e, p)" by simp
    show ?thesis
    proof (cases "sendBatch api [ReplaceAllText e p] r")
      case (Inl f)
      from applyBoldPasses_rejected [OF n fm Inl] res show ?thesis by simp
    next
      case (Inr r1)
      from sendBatch_Inr [OF Inr] have t1: "trace r1 = trace r @ [Sent [ReplaceAllText e p]]" .
      then have p1: "passesIn (trace r1) = Suc (passesIn (trace r))" by (simp add: passesIn_replace)
      show ?thesis
      proof (cases "body_content (documents_get api (store r1))")
        case None
        from applyBoldPasses_no_content [OF n fm Inr None] res have "r' = r1" by simp
        with t1 p1 n show ?thesis by simp
      next
        case (Some content1)
        let ?r2 = "afterStyle api p r1"
        from afterStyle_trace [of api p r1] obtain evs where
          t2: "trace ?r2 = trace r1 @ evs"
          and st: "list_all isStyleRequest (concat (map requestsOf evs))" by blast
        from style_events_no_pass [OF st, of "trace r1"] t2
        have p2: "passesIn (trace ?r2) = passesIn (trace r1)" by simp
        from applyBoldPasses_step [OF n fm Inr Some] res
        have "applyBoldPasses api (Suc n) (documents_get api (store ?r2)) ?r2 = Inr r'" by simp
        from Suc.hyps(1) [OF k this] obtain tail where
          "trace r' = trace ?r2 @ tail" "passesIn (trace r') \<le> passesIn (trace ?r2) + (50 - Suc n)"
          by blast
        with t1 t2 p1 p2 n show ?thesis by simp
      qed
    qed
  qed
qed

lemma applyBoldPasses_first:
  assumes n: "n < 50" and fm: "findMarker doc = Some (e, p)"
    and res: "applyBoldPasses api n doc r = Inr r'"
  shows "\<exists>r1 evs tail. sendBatch api [ReplaceAllText e p] r = Inr r1 \<and>
     trace r' = trace r @ Sent [ReplaceAllText e p] # evs @ tail \<and>
     (\<forall>content1. body_content (documents_get api (store r1)) = Some content1 \<and> trim p \<noteq> [] \<longrightarrow>
        concat (map requestsOf evs) = boldRequestsFor content1 p)"
proof (cases "sendBatch api [ReplaceAllText e p] r")
  case (Inl f)
  from applyBoldPasses_rejected [OF n fm Inl] res show ?thesis by simp
next
  case (Inr r1)
  from sendBatch_Inr [OF Inr] have t1: "trace r1 = trace r @ [Sent [ReplaceAllText e p]]" .
  show ?thesis
  proof (cases "body_content (documents_get api (store r1))")
    case None
    from applyBoldPasses_no_content [OF n fm Inr None] res have "r' = r1" by simp
    with t1 have "trace r' = trace r @ Sent [ReplaceAllText e p] # [] @ []" by simp
    moreover have "\<forall>content1. body_content (documents_get api (store r1)) = Some content1 \<and> trim p \<noteq> [] \<longrightarrow>
        concat (map requestsOf []) = boldRequestsFor content1 p" using None by simp
    ultimately show ?thesis using Inr by blast
  next
    case (Some content1)
    let ?r2 = "afterStyle api p r1"
    from afterStyle_trace [of api p r1] obtain evs where
      t2: "trace ?r2 = trace r1 @ evs"
      and rq: "\<forall>content1. body_content (documents_get api (store r1)) = Some content1 \<and> trim p \<noteq> [] \<longrightarrow>
        concat (map requestsOf evs) = boldRequestsFor content1 p" by blast
    from applyBoldPasses_step [OF n fm Inr Some] res
    have "applyBoldPasses api (Suc n) (documents_get api (store ?r2)) ?r2 = Inr r'" by simp
    from applyBoldPasses_trace [OF this] obtain tail where "trace r' = trace ?r2 @ tail" by blast
    with t1 t2 have "trace r' = trace r @ Sent [ReplaceAllText e p] # evs @ tail" by simp
    with Inr rq show ?thesis by blast
  qed
qed

lemma findFirstMarker_first:
  "findFirstMarker content = Some m \<longleftrightarrow>
     (\<exists>i < length content. matchMarker (getParagraphText (content ! i)) = Some m \<and>
        (\<forall>j < i. matchMarker (getParagraphText (content ! j)) = None))"
proof (induction content)
  case Nil
  then show ?case by simp
next
  case (Cons item items)
  show ?case
  proof (cases "matchMarker (getParagraphText item)")
    case None
    have "(\<exists>i < length (item # items). matchMarker (getParagraphText ((item # items) ! i)) = Some m \<and>
        (\<forall>j < i. matchMarker (getParagraphText ((item # items) ! j)) = None)) \<longleftrightarrow>
      (\<exists>i < length items. matchMarker (getParagraphText (items ! i)) = Some m \<and>
        (\<forall>j < i. matchMarker (getParagraphText (items ! j)) = None))" (is "?L \<longleftrightarrow> ?R")
    proof
      assume ?L
      then obtain i where i: "i < length (item # items)"
        "matchMarker (getParagraphText ((item # items) ! i)) = Some m"
        "\<forall>j < i. matchMarker (getParagraphText ((item # items) ! j)) = None" by blast
      with None obtain i' where i': "i = Suc i'" by (cases i) auto
      with i have "i' < length items" "matchMarker (getParagraphText (items ! i')) = Some m" by auto
      moreover have "\<forall>j < i'. matchMarker (getParagraphText (items ! j)) = None"
      proof (intro allI impI)
        fix j assume "j < i'"
        then have "Suc j < i" using i' by simp
        with i(3) have "matchMarker (getParagraphText ((item # items) ! Suc j)) = None" by blast
        then show "matchMarker (getParagraphText (items ! j)) = None" by simp
      qed
      ultimately show ?R by blast
    next
      assume ?R
      then obtain i where i: "i < length items" "matchMarker (getParagraphText (items ! i)) = Some m"
        "\<forall>j < i. matchMarker (getParagraphText (items ! j)) = None" by blast
      have "\<forall>j < Suc i. matchMarker (getParagraphText ((item # items) ! j)) = None"
      proof (intro allI impI)
        fix j assume "j < Suc i"
        then show "matchMarker (getParagraphText ((item # items) ! j)) = None"
          using None i(3) by (cases j) auto
      qed
      with i(1,2) have "Suc i < length (item # items) \<and>
          matchMarker (getParagraphText ((item # items) ! Suc i)) = Some m \<and>
          (\<forall>j < Suc i. matchMarker (getParagraphText ((item # items) ! j)) = None)" by simp
      then show ?L by blast
    qed
    with None Cons.IH show ?thesis by simp
  next
    case (Some m')
    have "(\<exists>i < length (item # items). matchMarker (getParagraphText ((item # items) ! i)) = Some m \<and>
        (\<forall>j < i. matchMarker (getParagraphText ((item # items) ! j)) = None)) \<longleftrightarrow> m' = m"
      (is "?L \<longleftrightarrow> _")
    proof
      assume ?L
      then obtain i where i: "i < length (item # items)"
        "matchMarker (getParagraphText ((item # items) ! i)) = Some m"
        "\<forall>j < i. matchMarker (getParagraphText ((item # items) ! j)) = None" by blast
      have "i = 0"
      proof (rule ccontr)
        assume "i \<noteq> 0"
        then have "0 < i" by simp
        with i(3) have "matchMarker (getParagraphText ((item # items) ! 0)) = None" by blast
        with Some show False by simp
      qed
      with i(2) Some show "m' = m" by simp
    next
      assume "m' = m"
      with Some have "0 < length (item # items) \<and>
          matchMarker (getParagraphText ((item # items) ! 0)) = Some m \<and>
          (\<forall>j < 0. matchMarker (getParagraphText ((item # items) ! j)) = None)" by simp
      then show ?L by blast
    qed
    with Some show ?thesis by simp
  qed
qed

lemma groupRuns_concat: "concat (map fst (groupRuns l)) = map fst l"
proof (induction l)
  case Nil
  then show ?case by simp
next
  case (Cons x xs)
  show ?case
  proof (cases "groupRuns xs")
    case Nil
    with Cons show ?thesis by simp
  next
    case (Cons g gs)
    obtain s b where "g = (s, b)" by (cases g)
    with Cons Cons.IH show ?thesis by (cases "b = snd x") simp_all
  qed
qed

lemma renderRuns_content: "concat (map runContent (renderRuns i rs)) = concat (map fst rs)"
  by (induction i rs rule: renderRuns.induct) (simp_all add: runContent_def)

lemma renderParagraphs_texts:
  "map getParagraphText (renderParagraphs i ls) = map (map fst) ls"
  by (induction i ls rule: renderParagraphs.induct)
     (simp_all add: getParagraphText_def paragraphElements_def renderRuns_content groupRuns_concat)

lemma docTexts_render: "docTexts (render buf) = [] # map (map fst) (splitLines buf)"
  by (simp add: docTexts_def render_def renderParagraphs_texts getParagraphText_def
      paragraphElements_def sectionBreak_def)

lemma splitLines_texts:
  "map fst a = map fst b \<Longrightarrow> map (map fst) (splitLines a) = map (map fst) (splitLines b)"
proof (induction a arbitrary: b)
  case Nil
  then show ?case by simp
next
  case (Cons x xs)
  then obtain y ys where b: "b = y # ys" and xy: "fst x = fst y" and r: "map fst xs = map fst ys"
    by (cases b) auto
  from Cons.IH [OF r] have ih: "map (map fst) (splitLines xs) = map (map fst) (splitLines ys)" .
  show ?case
  proof (cases "splitLines xs")
    case Nil
    with ih have "splitLines ys = []" by simp
    with Nil b xy show ?thesis by simp
  next
    case (Cons l ls)
    with ih obtain l' ls' where c': "splitLines ys = l' # ls'" and "map fst l = map fst l'"
      "map (map fst) ls = map (map fst) ls'" by (cases "splitLines ys") auto
    with Cons b xy show ?thesis by simp
  qed
qed

lemma docTexts_render_cong:
  assumes "map fst a = map fst b"
  shows "docTexts (render a) = docTexts (render b)"
  unfolding docTexts_render by (simp only: splitLines_texts [OF assms])

lemma findFirstMarker_texts:
  "map getParagraphText c1 = map getParagraphText c2 \<Longrightarrow> findFirstMarker c1 = findFirstMarker c2"
proof (induction c1 arbitrary: c2)
  case Nil
  then show ?case by simp
next
  case (Cons x xs)
  then obtain y ys where "c2 = y # ys" "getParagraphText x = getParagraphText y"
    "map getParagraphText xs = map getParagraphText ys" by (cases c2) auto
  with Cons.IH [of ys] show ?case by (cases "matchMarker (getParagraphText y)") simp_all
qed

lemma findMarker_render_cong:
  assumes "map fst a = map fst b"
  shows "findMarker (render a) = findMarker (render b)"
proof -
  from docTexts_render_cong [OF assms]
  have "map getParagraphText (sectionBreak # renderParagraphs 1 (splitLines a)) =
      map getParagraphText (sectionBreak # renderParagraphs 1 (splitLines b))"
    by (simp add: docTexts_def render_def)
  from findFirstMarker_texts [OF this] show ?thesis by (simp add: findMarker_def render_def)
qed

lemma markerSpans_render_cong:
  assumes "map fst a = map fst b"
  shows "markerSpans (render a) = markerSpans (render b)"
  unfolding markerSpans_def by (simp only: docTexts_render_cong [OF assms])

lemma replaceAll_text:
  "map fst a = map fst b \<Longrightarrow> map fst (replaceAll t rep a) = map fst (replaceAll t rep b)"
proof (induction "length a" arbitrary: a b rule: less_induct)
  case less
  show ?case
  proof (cases a)
    case Nil
    with less.prems show ?thesis by simp
  next
    case (Cons x xs)
    with less.prems obtain y ys where b: "b = y # ys" and xy: "fst x = fst y"
      and r: "map fst xs = map fst ys" by (cases b) auto
    show ?thesis
    proof (cases "t \<noteq> [] \<and> prefix t (map fst (x # xs))")
      case True
      then have tb: "t \<noteq> [] \<and> prefix t (map fst (y # ys))" using xy r by simp
      have d: "map fst (drop (length t - 1) xs) = map fst (drop (length t - 1) ys)"
        using r by (simp add: drop_map [symmetric])
      have "length (drop (length t - 1) xs) < length a" using Cons by simp
      from less.hyps [OF this d]
      have ih: "map fst (replaceAll t rep (drop (length t - 1) xs)) =
          map fst (replaceAll t rep (drop (length t - 1) ys))" .
      have ra: "replaceAll t rep (x # xs) =
          map (\<lambda>c. (c, snd x)) rep @ replaceAll t rep (drop (length t - 1) xs)"
        using True by (simp only: replaceAll.simps if_True simp_thms)
      have rb: "replaceAll t rep (y # ys) =
          map (\<lambda>c. (c, snd y)) rep @ replaceAll t rep (drop (length t - 1) ys)"
        using tb by (simp only: replaceAll.simps if_True simp_thms)
      show ?thesis unfolding Cons b ra rb using ih by (simp add: comp_def)
    next
      case False
      then have fb: "\<not> (t \<noteq> [] \<and> prefix t (map fst (y # ys)))" using xy r by simp
      have "length xs < length a" using Cons by simp
      from less.hyps [OF this r]
      have ih: "map fst (replaceAll t rep xs) = map fst (replaceAll t rep ys)" .
      have ra: "replaceAll t rep (x # xs) = x # replaceAll t rep xs"
        using False by (simp only: replaceAll.simps if_False simp_thms)
      have rb: "replaceAll t rep (y # ys) = y # replaceAll t rep ys"
        using fb by (simp only: replaceAll.simps if_False simp_thms)
      show ?thesis unfolding Cons b ra rb using ih xy by simp
    qed
  qed
qed

lemma applyRequest_style_text:
  "isStyleRequest req \<Longrightarrow> applyRequest req buf = Some buf' \<Longrightarrow> map fst buf' = map fst buf"
proof (cases req)
  case (UpdateTextStyle s e)
  assume "applyRequest req buf = Some buf'"
  with UpdateTextStyle have ok: "1 \<le> s \<and> s < e \<and> e \<le> length buf + 1"
    and b: "buf' = take (s - 1) buf @ map (\<lambda>x. (fst x, True)) (take (e - s) (drop (s - 1) buf)) @
      drop (e - 1) buf" by (auto split: if_splits)
  have "map fst buf' = map fst (take (s - 1) buf @ take (e - s) (drop (s - 1) buf) @ drop (e - 1) buf)"
    unfolding b by (simp add: comp_def)
  also have "take (e - s) (drop (s - 1) buf) @ drop (e - 1) buf = drop (s - 1) buf"
  proof -
    have "e - 1 = (e - s) + (s - 1)" using ok by arith
    then have "drop (e - 1) buf = drop (e - s) (drop (s - 1) buf)" by (simp only: drop_drop)
    then show ?thesis by (simp only: append_take_drop_id)
  qed
  finally show ?thesis by simp
qed simp_all

lemma applyBatch_style_text:
  "list_all isStyleRequest reqs \<Longrightarrow> applyBatch reqs buf = Some buf' \<Longrightarrow> map fst buf' = map fst buf"
proof (induction reqs arbitrary: buf)
  case Nil
  then show ?case by simp
next
  case (Cons req reqs)
  then obtain b1 where b1: "applyRequest req buf = Some b1" "applyBatch reqs b1 = Some buf'"
    by (auto split: option.splits)
  from Cons.prems(1) have "isStyleRequest req" "list_all isStyleRequest reqs" by simp_all
  with applyRequest_style_text [OF _ b1(1)] Cons.IH [OF _ b1(2)] show ?case by simp
qed

lemma map_fst_plain: "map fst (plain t) = t"
  by (simp add: plain_def comp_def)

lemma markerAt_nonempty: "markerAt s = Some (e, p) \<Longrightarrow> e \<noteq> []"
  using markerAt_Some [of s e p] by auto

lemma matchMarker_nonempty: "matchMarker s = Some (e, p) \<Longrightarrow> e \<noteq> []"
proof (induction s)
  case Nil
  then show ?case by simp
next
  case (Cons c cs)
  show ?case
  proof (cases "markerAt (c # cs)")
    case None
    with Cons show ?thesis by simp
  next
    case (Some m)
    with Cons.prems have "markerAt (c # cs) = Some (e, p)" by simp
    then show ?thesis by (rule markerAt_nonempty)
  qed
qed

lemma findMarker_nonempty: "findMarker doc = Some (e, p) \<Longrightarrow> e \<noteq> []"
proof -
  assume "findMarker doc = Some (e, p)"
  from findMarker_Some [OF this] obtain content where "findFirstMarker content = Some (e, p)"
    by blast
  then obtain i where "matchMarker (getParagraphText (content ! i)) = Some (e, p)"
    unfolding findFirstMarker_first by blast
  then show ?thesis by (rule matchMarker_nonempty)
qed

lemma occursAt_prefix: "t \<noteq> [] \<Longrightarrow> occursAt t c pos = prefix t (drop pos c)"
proof
  assume t: "t \<noteq> []" and o: "occursAt t c pos"
  then have "take (length t) (drop pos c) = t" by (simp add: occursAt_def)
  then show "prefix t (drop pos c)" by (metis take_is_prefix)
next
  assume t: "t \<noteq> []" and p: "prefix t (drop pos c)"
  from p have l: "length t \<le> length (drop pos c)" by (rule prefix_length_le)
  with t have "pos + length t \<le> length c" by (cases "pos < length c") auto
  moreover from p have "take (length t) (drop pos c) = t"
    by (auto simp: prefix_def)
  ultimately show "occursAt t c pos" by (simp add: occursAt_def)
qed

lemma indexOfScan_first:
  "t \<noteq> [] \<Longrightarrow> indexOfScan t s i = Some pos \<Longrightarrow>
     i \<le> pos \<and> prefix t (drop (pos - i) s) \<and> (\<forall>q. i \<le> q \<and> q < pos \<longrightarrow> \<not> prefix t (drop (q - i) s))"
proof (induction s arbitrary: i)
  case Nil
  then show ?case by simp
next
  case (Cons c cs)
  show ?case
  proof (cases "prefix t (c # cs)")
    case True
    with Cons.prems have "pos = i" by simp
    with True show ?thesis by simp
  next
    case False
    with Cons.prems have s: "indexOfScan t cs (Suc i) = Some pos" by simp
    from Cons.IH [OF Cons.prems(1) s]
    have a: "Suc i \<le> pos" and b: "prefix t (drop (pos - Suc i) cs)"
      and m: "\<forall>q. Suc i \<le> q \<and> q < pos \<longrightarrow> \<not> prefix t (drop (q - Suc i) cs)" by simp_all
    from a have e: "pos - i = Suc (pos - Suc i)" by arith
    have "\<not> prefix t (drop (q - i) (c # cs))" if q: "i \<le> q \<and> q < pos" for q
    proof (cases "q = i")
      case True
      with False show ?thesis by simp
    next
      case False
      with q have "Suc i \<le> q \<and> q < pos" and "q - i = Suc (q - Suc i)" by arith+
      with m show ?thesis by simp
    qed
    with a b e show ?thesis by simp
  qed
qed

lemma indexOfScan_None: "t \<noteq> [] \<Longrightarrow> indexOfScan t s i = None \<Longrightarrow> \<not> prefix t (drop q s)"
proof (induction s arbitrary: i q)
  case Nil
  then show ?case by simp
next
  case (Cons c cs)
  from Cons.prems(2) have np: "\<not> prefix t (c # cs)" and s: "indexOfScan t cs (Suc i) = None"
    by (simp_all split: if_splits)
  show ?case
  proof (cases q)
    case 0
    with np show ?thesis by simp
  next
    case (Suc q')
    with Cons.IH [OF Cons.prems(1) s, of q'] show ?thesis by simp
  qed
qed

lemma indexOf_first:
  assumes t: "t \<noteq> []" and s: "indexOf c t i = Some pos"
  shows "i \<le> pos \<and> occursAt t c pos \<and> (\<forall>q. i \<le> q \<and> q < pos \<longrightarrow> \<not> occursAt t c q)"
proof -
  let ?f = "min i (length c)"
  from s have sc: "indexOfScan t (drop ?f c) ?f = Some pos" by (simp add: indexOf_def Let_def)
  have "i \<le> length c"
  proof (rule ccontr)
    assume "\<not> i \<le> length c"
    then have "drop ?f c = []" by simp
    with sc t show False by simp
  qed
  then have f: "?f = i" by simp
  from indexOfScan_first [OF t sc]
  have "i \<le> pos \<and> prefix t (drop (pos - i) (drop i c)) \<and>
      (\<forall>q. i \<le> q \<and> q < pos \<longrightarrow> \<not> prefix t (drop (q - i) (drop i c)))"
    unfolding f .
  then have a: "i \<le> pos" and b: "prefix t (drop (pos - i) (drop i c))"
    and m: "\<forall>q. i \<le> q \<and> q < pos \<longrightarrow> \<not> prefix t (drop (q - i) (drop i c))" by blast+
  from a have "drop (pos - i) (drop i c) = drop pos c" by simp
  with b have "prefix t (drop pos c)" by simp
  then have o: "occursAt t c pos" by (simp add: occursAt_prefix [OF t])
  have "\<not> occursAt t c q" if q: "i \<le> q \<and> q < pos" for q
  proof -
    from m q have "\<not> prefix t (drop (q - i) (drop i c))" by blast
    moreover from q have "drop (q - i) (drop i c) = drop q c" by simp
    ultimately show ?thesis by (simp add: occursAt_prefix [OF t])
  qed
  with a o show ?thesis by blast
qed

lemma indexOf_None:
  assumes t: "t \<noteq> []" and s: "indexOf c t i = None" and q: "i \<le> q"
  shows "\<not> occursAt t c q"
proof
  assume o: "occursAt t c q"
  then have l: "q + length t \<le> length c" by (simp add: occursAt_def)
  with q have f: "min i (length c) = i" by simp
  from s f have "indexOfScan t (drop i c) i = None" by (simp add: indexOf_def Let_def)
  from indexOfScan_None [OF t this, of "q - i"] q have "\<not> prefix t (drop q c)" by simp
  with o show False by (simp add: occursAt_prefix [OF t])
qed

lemma boldRangesFrom_sound:
  "req \<in> set (boldRangesFrom c t base i) \<Longrightarrow>
     \<exists>pos. i \<le> pos \<and> occursAt t c pos \<and> req = UpdateTextStyle (base + pos) (base + pos + length t)"
proof (induction c t base i rule: boldRangesFrom.induct)
  case (1 c t base i)
  show ?case
  proof (cases "t = []")
    case True
    with "1.prems" show ?thesis by (subst (asm) boldRangesFrom.simps) simp
  next
    case t: False
    show ?thesis
    proof (cases "indexOf c t i")
      case None
      with t "1.prems" show ?thesis by (subst (asm) boldRangesFrom.simps) simp
    next
      case (Some pos)
      from indexOf_first [OF t Some] have ip: "i \<le> pos" and o: "occursAt t c pos" by blast+
      from "1.prems" t Some
      have "req = UpdateTextStyle (base + pos) (base + pos + length t) \<or>
          req \<in> set (boldRangesFrom c t base (pos + length t))"
        by (subst (asm) boldRangesFrom.simps) simp
      then show ?thesis
      proof
        assume "req = UpdateTextStyle (base + pos) (base + pos + length t)"
        with ip o show ?thesis by blast
      next
        assume "req \<in> set (boldRangesFrom c t base (pos + length t))"
        from "1.IH" [OF t Some this] obtain pos' where "pos + length t \<le> pos'"
          "occursAt t c pos'" "req = UpdateTextStyle (base + pos') (base + pos' + length t)" by blast
        moreover from this(1) ip have "i \<le> pos'" by arith
        ultimately show ?thesis by blast
      qed
    qed
  qed
qed

lemma boldRangesFrom_covers:
  "t \<noteq> [] \<Longrightarrow> occursAt t c q \<Longrightarrow> i \<le> q \<Longrightarrow>
     \<exists>pos. i \<le> pos \<and> pos \<le> q \<and> q < pos + length t \<and>
       UpdateTextStyle (base + pos) (base + pos + length t) \<in> set (boldRangesFrom c t base i)"
proof (induction c t base i rule: boldRangesFrom.induct)
  case (1 c t base i)
  note t = "1.prems"(1) and o = "1.prems"(2) and iq = "1.prems"(3)
  show ?case
  proof (cases "indexOf c t i")
    case None
    from indexOf_None [OF t None iq] o show ?thesis by blast
  next
    case (Some pos)
    from indexOf_first [OF t Some] have ip: "i \<le> pos"
      and m: "\<forall>q. i \<le> q \<and> q < pos \<longrightarrow> \<not> occursAt t c q" by blast+
    from m iq o have pq: "pos \<le> q" by (meson not_le_imp_less)
    have u: "boldRangesFrom c t base i =
        UpdateTextStyle (base + pos) (base + pos + length t) # boldRangesFrom c t base (pos + length t)"
      using t Some by (subst boldRangesFrom.simps) simp
    show ?thesis
    proof (cases "q < pos + length t")
      case True
      with ip pq u show ?thesis by auto
    next
      case False
      then have "pos + length t \<le> q" by simp
      from "1.IH" [OF t Some t o this] obtain pos' where p': "pos + length t \<le> pos'" "pos' \<le> q"
        "q < pos' + length t"
        "UpdateTextStyle (base + pos') (base + pos' + length t) \<in> set (boldRangesFrom c t base (pos + length t))"
        by blast
      from p'(1) ip have "i \<le> pos'" by arith
      with p' u show ?thesis by auto
    qed
  qed
qed

lemma styledRuns_mem:
  "(base, cnt) \<in> set (styledRuns content) \<longleftrightarrow>
     (\<exists>item els el. item \<in> set content \<and> paragraphElements item = Some els \<and> el \<in> set els \<and>
        pe_startIndex el = Some base \<and> runContent el = cnt)"
proof
  assume "(base, cnt) \<in> set (styledRuns content)"
  then obtain item where i: "item \<in> set content"
    and m: "(base, cnt) \<in> set (case paragraphElements item of None \<Rightarrow> []
       | Some els \<Rightarrow> List.map_filter (\<lambda>el. case pe_startIndex el of None \<Rightarrow> None
            | Some base \<Rightarrow> Some (base, runContent el)) els)"
    by (auto simp: styledRuns_def)
  then obtain els where e: "paragraphElements item = Some els"
    by (cases "paragraphElements item") auto
  with m obtain el where "el \<in> set els"
    "(case pe_startIndex el of None \<Rightarrow> None | Some base \<Rightarrow> Some (base, runContent el)) = Some (base, cnt)"
    by (auto simp: map_filter_def)
  then have "el \<in> set els \<and> pe_startIndex el = Some base \<and> runContent el = cnt"
    by (cases "pe_startIndex el") auto
  with i e show "\<exists>item els el. item \<in> set content \<and> paragraphElements item = Some els \<and> el \<in> set els \<and>
        pe_startIndex el = Some base \<and> runContent el = cnt" by blast
next
  assume "\<exists>item els el. item \<in> set content \<and> paragraphElements item = Some els \<and> el \<in> set els \<and>
        pe_startIndex el = Some base \<and> runContent el = cnt"
  then obtain item els el where i: "item \<in> set content" and e: "paragraphElements item = Some els"
    and el: "el \<in> set els" and s: "pe_startIndex el = Some base" and c: "runContent el = cnt" by blast
  from el s c have "(base, cnt) \<in> set (List.map_filter (\<lambda>el. case pe_startIndex el of None \<Rightarrow> None
            | Some base \<Rightarrow> Some (base, runContent el)) els)"
    by (force simp: map_filter_def)
  with i e show "(base, cnt) \<in> set (styledRuns content)"
    by (force simp: styledRuns_def)
qed

lemma boldRequestsFor_mem:
  "req \<in> set (boldRequestsFor content t) \<longleftrightarrow>
     (\<exists>item els el. item \<in> set content \<and> paragraphElements item = Some els \<and>
        includesStr (getParagraphText item) t \<and> el \<in> set els \<and>
        req \<in> set (elementBoldRequests t el))"
proof
  assume "req \<in> set (boldRequestsFor content t)"
  then obtain item where i: "item \<in> set content"
    and m: "req \<in> set (case paragraphElements item of None \<Rightarrow> []
       | Some els \<Rightarrow> if includesStr (getParagraphText item) t
           then concat (map (elementBoldRequests t) els) else [])"
    by (auto simp: boldRequestsFor_def)
  then obtain els where e: "paragraphElements item = Some els"
    by (cases "paragraphElements item") auto
  with m have inc: "includesStr (getParagraphText item) t"
    and "req \<in> set (concat (map (elementBoldRequests t) els))"
    by (simp_all split: if_splits)
  then obtain el where "el \<in> set els" "req \<in> set (elementBoldRequests t el)" by auto
  with i e inc show "\<exists>item els el. item \<in> set content \<and> paragraphElements item = Some els \<and>
        includesStr (getParagraphText item) t \<and> el \<in> set els \<and>
        req \<in> set (elementBoldRequests t el)" by blast
next
  assume "\<exists>item els el. item \<in> set content \<and> paragraphElements item = Some els \<and>
        includesStr (getParagraphText item) t \<and> el \<in> set els \<and>
        req \<in> set (elementBoldRequests t el)"
  then obtain item els el where i: "item \<in> set content" and e: "paragraphElements item = Some els"
    and inc: "includesStr (getParagraphText item) t" and el: "el \<in> set els"
    and r: "req \<in> set (elementBoldRequests t el)" by blast
  from el r have "req \<in> set (concat (map (elementBoldRequests t) els))" by auto
  with i e inc show "req \<in> set (boldRequestsFor content t)"
    by (force simp: boldRequestsFor_def)
qed

lemma boldRequestsFor_sound:
  assumes "req \<in> set (boldRequestsFor content t)"
  shows "\<exists>base cnt pos. (base, cnt) \<in> set (styledRuns content) \<and> occursAt t cnt pos \<and>
     req = UpdateTextStyle (base + pos) (base + pos + length t)"
proof -
  from assms obtain item els el where i: "item \<in> set content"
    and e: "paragraphElements item = Some els" and el: "el \<in> set els"
    and r: "req \<in> set (elementBoldRequests t el)"
    unfolding boldRequestsFor_mem by blast
  from r obtain base where s: "pe_startIndex el = Some base"
    by (cases "pe_startIndex el") (auto simp: elementBoldRequests_def)
  with r have "req \<in> set (boldRangesFrom (runContent el) t base 0)"
    by (simp add: elementBoldRequests_def split: if_splits)
  from boldRangesFrom_sound [OF this] obtain pos where "occursAt t (runContent el) pos"
    "req = UpdateTextStyle (base + pos) (base + pos + length t)" by blast
  moreover from i e el s have "(base, runContent el) \<in> set (styledRuns content)"
    unfolding styledRuns_mem by blast
  ultimately show ?thesis by blast
qed

lemma occursAt_includes:
  assumes t: "t \<noteq> []" and o: "occursAt t c q"
  shows "includesStr c t"
proof (rule ccontr)
  assume "\<not> includesStr c t"
  then have "indexOf c t 0 = None" by (simp add: includesStr_def)
  from indexOf_None [OF t this, of q] o show False by simp
qed

lemma occursAt_append: "occursAt t c q \<Longrightarrow> occursAt t (a @ c @ b) (length a + q)"
  by (simp add: occursAt_def)

lemma occursAt_concat:
  assumes "el \<in> set els" and "occursAt t (f el) q"
  shows "\<exists>q'. occursAt t (concat (map f els)) q'"
proof -
  from assms(1) obtain xs ys where "els = xs @ el # ys" by (meson split_list)
  then have "concat (map f els) = concat (map f xs) @ f el @ concat (map f ys)" by simp
  with occursAt_append [OF assms(2), of "concat (map f xs)" "concat (map f ys)"]
  show ?thesis by metis
qed

lemma boldRequestsFor_covers:
  assumes t: "t \<noteq> []" and m: "(base, cnt) \<in> set (styledRuns content)" and o: "occursAt t cnt q"
  shows "\<exists>pos. pos \<le> q \<and> q < pos + length t \<and>
     UpdateTextStyle (base + pos) (base + pos + length t) \<in> set (boldRequestsFor content t)"
proof -
  from m obtain item els el where i: "item \<in> set content"
    and e: "paragraphElements item = Some els" and el: "el \<in> set els"
    and s: "pe_startIndex el = Some base" and c: "runContent el = cnt"
    unfolding styledRuns_mem by blast
  from o c have o': "occursAt t (runContent el) q" by simp
  from occursAt_concat [of el els t runContent q, OF el o'] obtain q' where "occursAt t (concat (map runContent els)) q'" by blast
  with e have "occursAt t (getParagraphText item) q'" by (simp add: getParagraphText_def)
  from occursAt_includes [OF t this] have inc: "includesStr (getParagraphText item) t" .
  from o t have ne: "cnt \<noteq> []" by (auto simp: occursAt_def)
  from boldRangesFrom_covers [OF t o, of 0 base] obtain pos where p: "pos \<le> q" "q < pos + length t"
    "UpdateTextStyle (base + pos) (base + pos + length t) \<in> set (boldRangesFrom cnt t base 0)" by auto
  from p(3) s c ne have "UpdateTextStyle (base + pos) (base + pos + length t) \<in> set (elementBoldRequests t el)"
    by (simp add: elementBoldRequests_def)
  with i e inc el have "UpdateTextStyle (base + pos) (base + pos + length t) \<in> set (boldRequestsFor content t)"
    unfolding boldRequestsFor_mem by blast
  with p show ?thesis by blast
qed

lemma indexOfScan_occurs: "indexOfScan t (a @ t @ b) i \<noteq> None"
proof (induction a arbitrary: i)
  case Nil
  show ?case
  proof (cases "t @ b")
    case Nil
    then show ?thesis by simp
  next
    case (Cons c cs)
    have "prefix t (t @ b)" by simp
    then have "prefix t (c # cs)" unfolding Cons .
    then have "indexOfScan t (c # cs) i = Some i" by simp
    with Cons show ?thesis by simp
  qed
next
  case (Cons x a)
  then show ?case by simp
qed

lemma not_idChar_at: "\<not> isIdChar CHR ''@''"
  by (simp add: isIdChar_def)

lemma markerAt_complete:
  assumes i: "ident \<noteq> []" and a: "list_all isIdChar ident" and p: "payload \<noteq> []"
  shows "markerAt (''@@BOLD-'' @ ident @ ''@@'' @ payload @ ''@@BOLD-'' @ ident @ ''-END@@'' @ post) \<noteq> None"
proof -
  let ?closing = "''@@BOLD-'' @ ident @ ''-END@@''"
  let ?s = "''@@BOLD-'' @ ident @ ''@@'' @ payload @ ''@@BOLD-'' @ ident @ ''-END@@'' @ post"
  have pre: "prefix ''@@BOLD-'' ?s" by simp
  have d: "drop 7 ?s = ident @ ''@@'' @ payload @ ?closing @ post" by simp
  from a have all: "\<forall>x \<in> set ident. isIdChar x" by (simp add: list_all_iff)
  have tw: "takeWhile isIdChar (drop 7 ?s) = ident"
    unfolding d using all not_idChar_at by (simp add: takeWhile_append2)
  have dw: "dropWhile isIdChar (drop 7 ?s) = ''@@'' @ payload @ ?closing @ post"
    unfolding d using all not_idChar_at by (simp add: dropWhile_append2)
  from p obtain c cs where pl: "payload = c # cs" by (cases payload) auto
  have "indexOfScan ?closing (cs @ ?closing @ post) 1 \<noteq> None" by (rule indexOfScan_occurs)
  then obtain k where k: "indexOfScan ?closing (cs @ ?closing @ post) 1 = Some k" by blast
  have b: "drop 2 (''@@'' @ payload @ ?closing @ post) = c # cs @ ?closing @ post"
    using pl by simp
  have "markerAt ?s =
      Some (''@@BOLD-'' @ ident @ ''@@'' @ take k (c # cs @ ?closing @ post) @ ?closing,
            take k (c # cs @ ?closing @ post))"
    unfolding markerAt_def tw dw Let_def b using pre i k by simp
  then show ?thesis by simp
qed

lemma matchMarker_append: "matchMarker s \<noteq> None \<Longrightarrow> matchMarker (pre @ s) \<noteq> None"
proof (induction pre)
  case Nil
  then show ?case by simp
next
  case (Cons c pre)
  then show ?case by (cases "markerAt (c # pre @ s)") simp_all
qed

lemma markerAt_matchMarker: "markerAt s \<noteq> None \<Longrightarrow> matchMarker s \<noteq> None"
proof (cases s)
  case Nil
  assume "markerAt s \<noteq> None"
  with Nil show ?thesis by (simp add: markerAt_def)
next
  case (Cons c cs)
  assume "markerAt s \<noteq> None"
  with Cons show ?thesis by auto
qed

lemma matchMarker_complete: "hasMarkerSpan s \<Longrightarrow> matchMarker s \<noteq> None"
proof -
  assume "hasMarkerSpan s"
  then obtain pre ident payload post where
    s: "s = pre @ ''@@BOLD-'' @ ident @ ''@@'' @ payload @ ''@@BOLD-'' @ ident @ ''-END@@'' @ post"
    and i: "ident \<noteq> []" and a: "list_all isIdChar ident" and p: "payload \<noteq> []"
    unfolding hasMarkerSpan_def by blast
  from markerAt_complete [OF i a p, of post]
  have "matchMarker (''@@BOLD-'' @ ident @ ''@@'' @ payload @ ''@@BOLD-'' @ ident @ ''-END@@'' @ post) \<noteq> None"
    by (rule markerAt_matchMarker)
  from matchMarker_append [OF this, of pre] s show ?thesis by simp
qed

lemma matchMarker_iff: "matchMarker s = None \<longleftrightarrow> \<not> hasMarkerSpan s"
proof
  assume "matchMarker s = None"
  then show "\<not> hasMarkerSpan s" using matchMarker_complete by blast
next
  assume n: "\<not> hasMarkerSpan s"
  show "matchMarker s = None"
  proof (cases "matchMarker s")
    case None
    then show ?thesis .
  next
    case (Some m)
    from matchMarker_sound [OF this] n show ?thesis by simp
  qed
qed

lemma findFirstMarker_None_iff:
  "findFirstMarker content = None \<longleftrightarrow> (\<forall>item \<in> set content. \<not> hasMarkerSpan (getParagraphText item))"
proof (induction content)
  case Nil
  show ?case by simp
next
  case (Cons item items)
  show ?case
  proof (cases "matchMarker (getParagraphText item)")
    case None
    then have "\<not> hasMarkerSpan (getParagraphText item)" using matchMarker_complete by blast
    with None Cons show ?thesis by simp
  next
    case (Some m)
    then have "matchMarker (getParagraphText item) \<noteq> None" by simp
    then have "hasMarkerSpan (getParagraphText item)" using Some by (simp only: matchMarker_sound)
    with Some show ?thesis by simp
  qed
qed

lemma findMarker_None_iff:
  "findMarker doc = None \<longleftrightarrow> (\<forall>t \<in> set (docTexts doc). \<not> hasMarkerSpan t)"
proof (cases "body_content doc")
  case None
  then show ?thesis by (simp add: findMarker_def docTexts_def)
next
  case (Some content)
  then show ?thesis by (simp add: findMarker_def docTexts_def findFirstMarker_None_iff)
qed

lemma countMarkers_pos: "matchMarker s = Some m \<Longrightarrow> 0 < countMarkers s"
proof (induction s)
  case Nil
  then show ?case by simp
next
  case (Cons c cs)
  show ?case
  proof (cases "markerAt (c # cs)")
    case None
    with Cons show ?thesis by simp
  next
    case (Some ep)
    then show ?thesis by (cases ep) simp
  qed
qed

lemma markerSpans_zero:
  assumes "markerSpans doc = 0"
  shows "findMarker doc = None"
proof (cases "findMarker doc")
  case None
  then show ?thesis .
next
  case (Some m)
  from findMarker_Some [OF this] obtain content where c: "body_content doc = Some content"
    and f: "findFirstMarker content = Some m" by blast
  from f obtain i where i: "i < length content"
    and mm: "matchMarker (getParagraphText (content ! i)) = Some m"
    unfolding findFirstMarker_first by blast
  from countMarkers_pos [OF mm] have "0 < countMarkers (getParagraphText (content ! i))" .
  moreover from i have "getParagraphText (content ! i) \<in> set (map getParagraphText content)" by simp
  ultimately have "sum_list (map countMarkers (map getParagraphText content)) \<noteq> 0"
    by (metis less_numeral_extra(3) sum_list_eq_0_iff list.set_map image_eqI)
  moreover from c assms have "sum_list (map countMarkers (map getParagraphText content)) = 0"
    unfolding markerSpans_def docTexts_def by simp
  ultimately show ?thesis by blast
qed

lemma chunk_count: "xs \<noteq> [] \<Longrightarrow> (length xs + 9) div 10 = Suc ((length (drop 10 xs) + 9) div 10)"
  by (cases xs) (simp_all, arith)

lemma chunk_shift: "take 10 (drop (10 * Suc k) xs) = take 10 (drop (10 * k) (drop 10 xs))"
  by (simp add: add.commute)

lemma sendChunks_foldl:
  "sendChunks api reqs r =
     foldl (\<lambda>r c. tryBatch api c r) r
       (map (\<lambda>k. take 10 (drop (10 * k) reqs)) [0..<(length reqs + 9) div 10])"
proof (induction "length reqs" arbitrary: reqs r rule: less_induct)
  case less
  show ?case
  proof (cases "reqs = []")
    case True
    then show ?thesis by (simp add: sendChunks_Nil)
  next
    case False
    let ?n = "(length (drop 10 reqs) + 9) div 10"
    have l: "length (drop 10 reqs) < length reqs" using False by (cases reqs) simp_all
    have n: "(length reqs + 9) div 10 = Suc ?n" using False by (rule chunk_count)
    have "[0..<Suc ?n] = 0 # map Suc [0..<?n]" by (simp add: upt_conv_Cons map_Suc_upt del: upt_Suc)
    then have m: "map (\<lambda>k. take 10 (drop (10 * k) reqs)) [0..<Suc ?n] =
        take 10 reqs # map (\<lambda>k. take 10 (drop (10 * k) (drop 10 reqs))) [0..<?n]"
      by (simp add: comp_def add.commute del: upt_Suc)
    have "sendChunks api reqs r = sendChunks api (drop 10 reqs) (tryBatch api (take 10 reqs) r)"
      using False by (rule sendChunks_unfold)
    also have "\<dots> = foldl (\<lambda>r c. tryBatch api c r) (tryBatch api (take 10 reqs) r)
        (map (\<lambda>k. take 10 (drop (10 * k) (drop 10 reqs))) [0..<?n])"
      by (rule less.hyps [OF l])
    also have "\<dots> = foldl (\<lambda>r c. tryBatch api c r) r
        (map (\<lambda>k. take 10 (drop (10 * k) reqs)) [0..<Suc ?n])"
      unfolding m by simp
    finally show ?thesis unfolding n .
  qed
qed

lemma applyBoldPasses_pass:
  assumes n: "n < 50" and fm: "findMarker doc = Some (e, p)"
    and res: "applyBoldPasses api n doc r0 = Inr r1"
  shows "\<exists>ra. sendBatch api [ReplaceAllText e p] r0 = Inr ra \<and>
     (case body_content (documents_get api (store ra)) of
        None \<Rightarrow> r1 = ra
      | Some content1 \<Rightarrow>
          (let reqs = (if trim p = [] then [] else boldRequestsFor content1 p);
               r2 = foldl (\<lambda>r c. tryBatch api c r) ra
                      (map (\<lambda>k. take 10 (drop (10 * k) reqs)) [0..<(length reqs + 9) div 10])
           in applyBoldPasses api (Suc n) (documents_get api (store r2)) r2 = Inr r1))"
proof (cases "sendBatch api [ReplaceAllText e p] r0")
  case (Inl f)
  from applyBoldPasses_rejected [OF n fm Inl] res show ?thesis by simp
next
  case (Inr ra)
  show ?thesis
  proof (cases "body_content (documents_get api (store ra))")
    case None
    from applyBoldPasses_no_content [OF n fm Inr None] res have "r1 = ra" by simp
    with Inr None show ?thesis by simp
  next
    case (Some content1)
    let ?reqs = "if trim p = [] then [] else boldRequestsFor content1 p"
    let ?r2 = "foldl (\<lambda>r c. tryBatch api c r) ra
        (map (\<lambda>k. take 10 (drop (10 * k) ?reqs)) [0..<(length ?reqs + 9) div 10])"
    have a: "afterStyle api p ra = ?r2"
    proof (cases "trim p = []")
      case True
      with Some show ?thesis by (simp add: afterStyle_def)
    next
      case False
      with Some have "afterStyle api p ra = sendChunks api (boldRequestsFor content1 p) ra"
        by (simp add: afterStyle_def)
      also have "\<dots> = foldl (\<lambda>r c. tryBatch api c r) ra
          (map (\<lambda>k. take 10 (drop (10 * k) (boldRequestsFor content1 p)))
             [0..<(length (boldRequestsFor content1 p) + 9) div 10])"
        by (rule sendChunks_foldl)
      finally show ?thesis using False by simp
    qed
    from applyBoldPasses_step [OF n fm Inr Some] res
    have "applyBoldPasses api (Suc n) (documents_get api (store (afterStyle api p ra)))
        (afterStyle api p ra) = Inr r1" by simp
    then have "applyBoldPasses api (Suc n) (documents_get api (store ?r2)) ?r2 = Inr r1"
      unfolding a .
    with Inr Some show ?thesis by (simp add: Let_def)
  qed
qed

lemma boldRangesFrom_empty_run: "t \<noteq> [] \<Longrightarrow> boldRangesFrom [] t base 0 = []"
  by (subst boldRangesFrom.simps) (simp add: indexOf_def)

lemma elementBoldRequests_run:
  "t \<noteq> [] \<Longrightarrow> elementBoldRequests t el =
     (case pe_startIndex el of None \<Rightarrow> [] | Some base \<Rightarrow> boldRangesFrom (runContent el) t base 0)"
  by (cases "pe_startIndex el") (simp_all add: elementBoldRequests_def boldRangesFrom_empty_run)

lemma boldRangesFrom_no_occurrence:
  assumes t: "t \<noteq> []" and n: "\<forall>q. \<not> occursAt t c q"
  shows "boldRangesFrom c t base 0 = []"
proof (cases "indexOf c t 0")
  case None
  with t show ?thesis by (subst boldRangesFrom.simps) simp
next
  case (Some pos)
  from indexOf_first [OF t Some] n show ?thesis by blast
qed

lemma run_requests_concat:
  "concat (map (\<lambda>el. case pe_startIndex el of None \<Rightarrow> []
       | Some base \<Rightarrow> boldRangesFrom (runContent el) t base 0) els) =
   concat (map (\<lambda>(base, cnt). boldRangesFrom cnt t base 0)
     (List.map_filter (\<lambda>el. case pe_startIndex el of None \<Rightarrow> None
        | Some base \<Rightarrow> Some (base, runContent el)) els))"
proof (induction els)
  case Nil
  show ?case by (simp add: map_filter_def)
next
  case (Cons el els)
  then show ?case by (cases "pe_startIndex el") (simp_all add: map_filter_def)
qed

lemma not_included_no_requests:
  assumes t: "t \<noteq> []" and e: "paragraphElements item = Some els"
    and n: "\<not> includesStr (getParagraphText item) t"
  shows "concat (map (\<lambda>el. case pe_startIndex el of None \<Rightarrow> []
       | Some base \<Rightarrow> boldRangesFrom (runContent el) t base 0) els) = []"
proof -
  have "(case pe_startIndex el of None \<Rightarrow> []
       | Some base \<Rightarrow> boldRangesFrom (runContent el) t base 0) = []" if el: "el \<in> set els" for el
  proof (cases "pe_startIndex el")
    case None
    then show ?thesis by simp
  next
    case (Some base)
    have "\<not> occursAt t (runContent el) q" for q
    proof
      assume o: "occursAt t (runContent el) q"
      from occursAt_concat [of el els t runContent q, OF el o] obtain q' where
        "occursAt t (concat (map runContent els)) q'" by blast
      with e have "occursAt t (getParagraphText item) q'" by (simp add: getParagraphText_def)
      from occursAt_includes [OF t this] n show False by simp
    qed
    then have "boldRangesFrom (runContent el) t base 0 = []"
      using boldRangesFrom_no_occurrence [OF t] by blast
    with Some show ?thesis by simp
  qed
  then show ?thesis by simp
qed

lemma boldRequestsFor_runs:
  assumes t: "t \<noteq> []"
  shows "boldRequestsFor content t =
     concat (map (\<lambda>(base, cnt). boldRangesFrom cnt t base 0) (styledRuns content))"
proof (induction content)
  case Nil
  show ?case by (simp add: boldRequestsFor_def styledRuns_def)
next
  case (Cons item items)
  have h: "(case paragraphElements item of None \<Rightarrow> []
       | Some els \<Rightarrow> if includesStr (getParagraphText item) t
           then concat (map (elementBoldRequests t) els) else []) =
     concat (map (\<lambda>(base, cnt). boldRangesFrom cnt t base 0)
       (case paragraphElements item of None \<Rightarrow> []
        | Some els \<Rightarrow> List.map_filter (\<lambda>el. case pe_startIndex el of None \<Rightarrow> None
             | Some base \<Rightarrow> Some (base, runContent el)) els))"
  proof (cases "paragraphElements item")
    case None
    then show ?thesis by simp
  next
    case (Some els)
    have m: "map (elementBoldRequests t) els =
        map (\<lambda>el. case pe_startIndex el of None \<Rightarrow> []
          | Some base \<Rightarrow> boldRangesFrom (runContent el) t base 0) els"
      using elementBoldRequests_run [OF t] by simp
    show ?thesis
    proof (cases "includesStr (getParagraphText item) t")
      case True
      with Some show ?thesis by (simp add: m run_requests_concat)
    next
      case False
      from not_included_no_requests [OF t Some False]
      have "concat (map (\<lambda>(base, cnt). boldRangesFrom cnt t base 0)
          (List.map_filter (\<lambda>el. case pe_startIndex el of None \<Rightarrow> None
             | Some base \<Rightarrow> Some (base, runContent el)) els)) = []"
        by (simp only: run_requests_concat [symmetric])
      with Some False show ?thesis by simp
    qed
  qed
  have "boldRequestsFor (item # items) t =
      (case paragraphElements item of None \<Rightarrow> []
       | Some els \<Rightarrow> if includesStr (getParagraphText item) t
           then concat (map (elementBoldRequests t) els) else []) @ boldRequestsFor items t"
    by (simp add: boldRequestsFor_def)
  moreover have "styledRuns (item # items) =
      (case paragraphElements item of None \<Rightarrow> []
        | Some els \<Rightarrow> List.map_filter (\<lambda>el. case pe_startIndex el of None \<Rightarrow> None
             | Some base \<Rightarrow> Some (base, runContent el)) els) @ styledRuns items"
    by (simp add: styledRuns_def)
  ultimately show ?case using h Cons.IH by simp
qed

text \<open>
  The positions of the requests for one run: each is the first occurrence at or after the
  end of the one before (the first at or after \<open>i\<close>), and no occurrence starts at or after
  the end of the last.
\<close>

lemma boldRangesFrom_greedy:
  "t \<noteq> [] \<Longrightarrow>
     \<exists>ps. boldRangesFrom c t base i =
            map (\<lambda>pos. UpdateTextStyle (base + pos) (base + pos + length t)) ps \<and>
          (\<forall>k < length ps. occursAt t c (ps ! k) \<and>
             (\<forall>q. (if k = 0 then i else ps ! (k - 1) + length t) \<le> q \<and> q < ps ! k \<longrightarrow>
                \<not> occursAt t c q)) \<and>
          (\<forall>q. (if ps = [] then i else last ps + length t) \<le> q \<longrightarrow> \<not> occursAt t c q)"
proof (induction c t base i rule: boldRangesFrom.induct)
  case (1 c t base i)
  note t = "1.prems"
  show ?case
  proof (cases "indexOf c t i")
    case None
    have "boldRangesFrom c t base i = []" using t None by (subst boldRangesFrom.simps) simp
    moreover have "\<forall>q. i \<le> q \<longrightarrow> \<not> occursAt t c q" using indexOf_None [OF t None] by blast
    ultimately show ?thesis by (intro exI [of _ "[]"]) simp
  next
    case (Some pos)
    from indexOf_first [OF t Some] have ip: "i \<le> pos" and o: "occursAt t c pos"
      and m: "\<forall>q. i \<le> q \<and> q < pos \<longrightarrow> \<not> occursAt t c q" by blast+
    from "1.IH" [OF t Some t] obtain ps where
      eq: "boldRangesFrom c t base (pos + length t) =
          map (\<lambda>pos. UpdateTextStyle (base + pos) (base + pos + length t)) ps"
      and each: "\<forall>k < length ps. occursAt t c (ps ! k) \<and>
          (\<forall>q. (if k = 0 then pos + length t else ps ! (k - 1) + length t) \<le> q \<and> q < ps ! k \<longrightarrow>
             \<not> occursAt t c q)"
      and fin: "\<forall>q. (if ps = [] then pos + length t else last ps + length t) \<le> q \<longrightarrow>
          \<not> occursAt t c q" by blast
    let ?ps = "pos # ps"
    have u: "boldRangesFrom c t base i =
        map (\<lambda>pos. UpdateTextStyle (base + pos) (base + pos + length t)) ?ps"
      using t Some eq by (subst boldRangesFrom.simps) simp
    have e2: "occursAt t c (?ps ! k) \<and>
        (\<forall>q. (if k = 0 then i else ?ps ! (k - 1) + length t) \<le> q \<and> q < ?ps ! k \<longrightarrow>
           \<not> occursAt t c q)" if k: "k < length ?ps" for k
    proof (cases k)
      case 0
      with o m show ?thesis by simp
    next
      case (Suc k')
      with k have k': "k' < length ps" by simp
      from each k' have x: "occursAt t c (ps ! k') \<and>
          (\<forall>q. (if k' = 0 then pos + length t else ps ! (k' - 1) + length t) \<le> q \<and> q < ps ! k' \<longrightarrow>
             \<not> occursAt t c q)" by blast
      show ?thesis
      proof (cases k')
        case 0
        with x Suc show ?thesis by simp
      next
        case (Suc j)
        with x \<open>k = Suc k'\<close> show ?thesis by simp
      qed
    qed
    have f2: "\<forall>q. (if ?ps = [] then i else last ?ps + length t) \<le> q \<longrightarrow> \<not> occursAt t c q"
      using fin by (cases "ps = []") simp_all
    from u e2 f2 show ?thesis by (intro exI [of _ ?ps]) blast
  qed
qed

lemma markerAt_None_no_span: "markerAt s = None \<Longrightarrow> \<not> startsWithSpan s"
  unfolding startsWithSpan_def using markerAt_complete by blast

lemma matchMarker_leftmost:
  "matchMarker s = Some m \<Longrightarrow>
     \<exists>k < length s. markerAt (drop k s) = Some m \<and> (\<forall>j < k. markerAt (drop j s) = None)"
proof (induction s)
  case Nil
  then show ?case by simp
next
  case (Cons c cs)
  show ?case
  proof (cases "markerAt (c # cs)")
    case (Some m')
    with Cons.prems have "m' = m" by simp
    with Some have "markerAt (drop 0 (c # cs)) = Some m" by simp
    moreover have "\<forall>j < (0 :: nat). markerAt (drop j (c # cs)) = None" by simp
    moreover have "0 < length (c # cs)" by simp
    ultimately show ?thesis by blast
  next
    case None
    with Cons.prems have "matchMarker cs = Some m" by simp
    from Cons.IH [OF this] obtain k where k: "k < length cs" "markerAt (drop k cs) = Some m"
      and n: "\<forall>j < k. markerAt (drop j cs) = None" by blast
    have "\<forall>j < Suc k. markerAt (drop j (c # cs)) = None"
    proof (intro allI impI)
      fix j assume "j < Suc k"
      with None n show "markerAt (drop j (c # cs)) = None" by (cases j) simp_all
    qed
    moreover from k have "Suc k < length (c # cs)" "markerAt (drop (Suc k) (c # cs)) = Some m"
      by simp_all
    ultimately show ?thesis by blast
  qed
qed

lemma markerAt_shortest:
  assumes m: "markerAt x = Some (e, p)"
    and x: "x = ''@@BOLD-'' @ ident @ ''@@'' @ p' @ ''@@BOLD-'' @ ident @ ''-END@@'' @ post'"
    and a: "list_all isIdChar ident" and p': "p' \<noteq> []"
  shows "length p \<le> length p'"
proof -
  let ?closing = "''@@BOLD-'' @ ident @ ''-END@@''"
  let ?body = "p' @ ?closing @ post'"
  have pre: "prefix ''@@BOLD-'' x" unfolding x by simp
  have d: "drop 7 x = ident @ ''@@'' @ ?body" unfolding x by simp
  from a have all: "\<forall>c \<in> set ident. isIdChar c" by (simp add: list_all_iff)
  have tw: "takeWhile isIdChar (drop 7 x) = ident"
    unfolding d using all not_idChar_at by (simp add: takeWhile_append2)
  have dw: "dropWhile isIdChar (drop 7 x) = ''@@'' @ ?body"
    unfolding d using all not_idChar_at by (simp add: dropWhile_append2)
  have b: "drop 2 (''@@'' @ ?body) = ?body" by simp
  from m obtain k where k: "indexOfScan ?closing (drop 1 ?body) 1 = Some k" and pk: "p = take k ?body"
    unfolding markerAt_def tw dw Let_def b using pre
    by (auto split: if_splits option.splits)
  have ne: "?closing \<noteq> []" by simp
  from indexOfScan_first [OF ne k]
  have least: "\<forall>q. 1 \<le> q \<and> q < k \<longrightarrow> \<not> prefix ?closing (drop (q - 1) (drop 1 ?body))" by blast
  have "\<not> length p' < k"
  proof
    assume lt: "length p' < k"
    from p' have one: "1 \<le> length p'" by (cases p') simp_all
    with lt least have "\<not> prefix ?closing (drop (length p' - 1) (drop 1 ?body))" by blast
    moreover from one have "drop (length p' - 1) (drop 1 ?body) = drop (length p') ?body" by simp
    moreover have "drop (length p') ?body = ?closing @ post'" by simp
    ultimately show False by simp
  qed
  then have "k \<le> length p'" by simp
  moreover from pk have "length p \<le> k" by simp
  ultimately show ?thesis by simp
qed

lemma matchMarker_spec:
  assumes "matchMarker s = Some (e, p)"
  shows "\<exists>pre ident post. s = pre @ e @ post \<and>
     e = ''@@BOLD-'' @ ident @ ''@@'' @ p @ ''@@BOLD-'' @ ident @ ''-END@@'' \<and>
     ident \<noteq> [] \<and> list_all isIdChar ident \<and> p \<noteq> [] \<and>
     (\<forall>k < length pre. \<not> startsWithSpan (drop k s)) \<and>
     (\<forall>p'. p' \<noteq> [] \<and> length p' < length p \<longrightarrow>
        \<not> prefix (''@@BOLD-'' @ ident @ ''@@'' @ p' @ ''@@BOLD-'' @ ident @ ''-END@@'') (e @ post))"
proof -
  from matchMarker_leftmost [OF assms] obtain k where k: "k < length s"
    and m: "markerAt (drop k s) = Some (e, p)"
    and n: "\<forall>j < k. markerAt (drop j s) = None" by blast
  from markerAt_Some [OF m] obtain ident post where
    e: "e = ''@@BOLD-'' @ ident @ ''@@'' @ p @ ''@@BOLD-'' @ ident @ ''-END@@''"
    and d: "drop k s = e @ post" and i: "ident \<noteq> []" and a: "list_all isIdChar ident"
    and p: "p \<noteq> []" by blast
  have s: "s = take k s @ e @ post" using d by (metis append_take_drop_id)
  have lp: "length (take k s) = k" using k by simp
  have left: "\<forall>j < length (take k s). \<not> startsWithSpan (drop j s)"
    unfolding lp using n markerAt_None_no_span by blast
  have short: "\<not> prefix (''@@BOLD-'' @ ident @ ''@@'' @ p' @ ''@@BOLD-'' @ ident @ ''-END@@'') (e @ post)"
    if p': "p' \<noteq> []" "length p' < length p" for p'
  proof
    assume "prefix (''@@BOLD-'' @ ident @ ''@@'' @ p' @ ''@@BOLD-'' @ ident @ ''-END@@'') (e @ post)"
    then obtain post' where
      "e @ post = (''@@BOLD-'' @ ident @ ''@@'' @ p' @ ''@@BOLD-'' @ ident @ ''-END@@'') @ post'"
      by (auto simp: prefix_def)
    then have x: "drop k s = ''@@BOLD-'' @ ident @ ''@@'' @ p' @ ''@@BOLD-'' @ ident @ ''-END@@'' @ post'"
      using d by simp
    from markerAt_shortest [OF m x a p'(1)] p'(2) show False by simp
  qed
  from s e i a p left short show ?thesis by blast
qed

text \<open>
  Claim C5, amended. On a store that keeps the contract (the replacement of a span found
  in the snapshot is applied and leaves fewer spans, style requests add none): the
  styler returns; it makes at most 50 passes and at most as many passes as the document
  has marker spans; and when it has made fewer than 50, the last snapshot has no marker
  span. On every store: a run of the loop from pass count \<open>n\<close> makes at most \<open>50 - n\<close>
  passes; a pass on a snapshot with a marker span starts with one batch of one request,
  the replacement of the whole span by its payload, for the match of the first block in
  order that has one; and on a snapshot with no marker span the loop returns at once,
  with nothing sent. The match of a block is the leftmost marker span of its text, with
  the shortest payload; a text has a match when it holds a marker span.
\<close>

theorem styler_pass_bound:
  assumes c: "storeContract api I" and i: "I (store r)"
  shows "(\<exists>r'. applyBoldMarkers api r = Inr r' \<and>
            passesIn (trace r') - passesIn (trace r) \<le> 50 \<and>
            passesIn (trace r') - passesIn (trace r) \<le> markerSpans (documents_get api (store r)) \<and>
            (passesIn (trace r') - passesIn (trace r) < 50 \<longrightarrow>
               findMarker (documents_get api (store r')) = None)) \<and>
         (\<forall>n doc r0 r1. applyBoldPasses api n doc r0 = Inr r1 \<longrightarrow>
            passesIn (trace r1) - passesIn (trace r0) \<le> 50 - n) \<and>
         (\<forall>n doc r0 r1 e p. n < 50 \<and> findMarker doc = Some (e, p) \<and>
              applyBoldPasses api n doc r0 = Inr r1 \<longrightarrow>
            (\<exists>tail. trace r1 = trace r0 @ Sent [ReplaceAllText e p] # tail)) \<and>
         (\<forall>n doc r0. findMarker doc = None \<longrightarrow> applyBoldPasses api n doc r0 = Inr r0) \<and>
         (\<forall>content m. findFirstMarker content = Some m \<longleftrightarrow>
            (\<exists>i < length content. matchMarker (getParagraphText (content ! i)) = Some m \<and>
               (\<forall>j < i. matchMarker (getParagraphText (content ! j)) = None))) \<and>
         (\<forall>s. matchMarker s = None \<longleftrightarrow> \<not> hasMarkerSpan s) \<and>
         (\<forall>s e p. matchMarker s = Some (e, p) \<longrightarrow>
            (\<exists>pre ident post. s = pre @ e @ post \<and>
               e = ''@@BOLD-'' @ ident @ ''@@'' @ p @ ''@@BOLD-'' @ ident @ ''-END@@'' \<and>
               ident \<noteq> [] \<and> list_all isIdChar ident \<and> p \<noteq> [] \<and>
               (\<forall>k < length pre. \<not> startsWithSpan (drop k s)) \<and>
               (\<forall>p'. p' \<noteq> [] \<and> length p' < length p \<longrightarrow>
                  \<not> prefix (''@@BOLD-'' @ ident @ ''@@'' @ p' @ ''@@BOLD-'' @ ident @ ''-END@@'')
                     (e @ post))))"
proof (intro conjI allI impI)
  from applyBoldMarkers_contract [OF c i] obtain r' where
    res: "applyBoldMarkers api r = Inr r'"
    and a: "passesIn (trace r) \<le> passesIn (trace r')"
    and b: "passesIn (trace r') + markerSpans (documents_get api (store r')) \<le>
        passesIn (trace r) + markerSpans (documents_get api (store r))"
    and d: "passesIn (trace r') \<le> passesIn (trace r) + 50"
    and f: "passesIn (trace r') < passesIn (trace r) + 50 \<longrightarrow>
        findMarker (documents_get api (store r')) = None" by blast
  have "passesIn (trace r') - passesIn (trace r) \<le> 50" using d by arith
  moreover have "passesIn (trace r') - passesIn (trace r) \<le> markerSpans (documents_get api (store r))"
    using b by arith
  moreover have "passesIn (trace r') - passesIn (trace r) < 50 \<longrightarrow>
      findMarker (documents_get api (store r')) = None" using f a by auto
  ultimately show "\<exists>r'. applyBoldMarkers api r = Inr r' \<and>
      passesIn (trace r') - passesIn (trace r) \<le> 50 \<and>
      passesIn (trace r') - passesIn (trace r) \<le> markerSpans (documents_get api (store r)) \<and>
      (passesIn (trace r') - passesIn (trace r) < 50 \<longrightarrow>
         findMarker (documents_get api (store r')) = None)" using res by blast
next
  fix n doc r0 r1
  assume "applyBoldPasses api n doc r0 = Inr r1"
  from applyBoldPasses_trace [OF this]
  show "passesIn (trace r1) - passesIn (trace r0) \<le> 50 - n" by arith
next
  fix n doc r0 r1 e p
  assume "n < 50 \<and> findMarker doc = Some (e, p) \<and> applyBoldPasses api n doc r0 = Inr r1"
  then have "n < 50" "findMarker doc = Some (e, p)" "applyBoldPasses api n doc r0 = Inr r1"
    by simp_all
  from applyBoldPasses_first [OF this] obtain evs tail where
    "trace r1 = trace r0 @ Sent [ReplaceAllText e p] # evs @ tail" by blast
  then show "\<exists>tail. trace r1 = trace r0 @ Sent [ReplaceAllText e p] # tail" by blast
next
  fix n doc r0
  assume "findMarker doc = None"
  then show "applyBoldPasses api n doc r0 = Inr r0" by (rule applyBoldPasses_none)
next
  fix content m
  show "findFirstMarker content = Some m \<longleftrightarrow>
      (\<exists>i < length content. matchMarker (getParagraphText (content ! i)) = Some m \<and>
         (\<forall>j < i. matchMarker (getParagraphText (content ! j)) = None))"
    by (rule findFirstMarker_first)
next
  fix s
  show "matchMarker s = None \<longleftrightarrow> \<not> hasMarkerSpan s" by (rule matchMarker_iff)
next
  fix s e p
  assume "matchMarker s = Some (e, p)"
  then show "\<exists>pre ident post. s = pre @ e @ post \<and>
      e = ''@@BOLD-'' @ ident @ ''@@'' @ p @ ''@@BOLD-'' @ ident @ ''-END@@'' \<and>
      ident \<noteq> [] \<and> list_all isIdChar ident \<and> p \<noteq> [] \<and>
      (\<forall>k < length pre. \<not> startsWithSpan (drop k s)) \<and>
      (\<forall>p'. p' \<noteq> [] \<and> length p' < length p \<longrightarrow>
         \<not> prefix (''@@BOLD-'' @ ident @ ''@@'' @ p' @ ''@@BOLD-'' @ ident @ ''-END@@'')
            (e @ post))"
    by (rule matchMarker_spec)
qed

lemma twoSpans_contract: "storeContract memoryStore (\<lambda>s. map fst s \<in> set twoSpanTexts)"
  unfolding storeContract_def
proof (intro conjI allI impI)
  fix s e p
  assume a: "map fst s \<in> set twoSpanTexts \<and> findMarker (documents_get memoryStore s) = Some (e, p)"
  then have fm: "findMarker (render s) = Some (e, p)" by (simp add: memoryStore_def)
  from findMarker_nonempty [OF fm] have ne: "e \<noteq> []" .
  then have ap: "documents_batchUpdate memoryStore [ReplaceAllText e p] s = Some (replaceAll e p s)"
    by (simp add: memoryStore_def)
  have cong: "findMarker (render s) = findMarker (render (plain (map fst s)))"
    "markerSpans (render s) = markerSpans (render (plain (map fst s)))"
    "map fst (replaceAll e p s) = map fst (replaceAll e p (plain (map fst s)))"
    by (simp_all only: findMarker_render_cong [of s "plain (map fst s)"]
        markerSpans_render_cong [of s "plain (map fst s)"]
        replaceAll_text [of s "plain (map fst s)"] map_fst_plain)
  have f0: "findMarker (render (plain twoSpans)) = Some (''@@BOLD-a1@@Jest@@BOLD-a1-END@@'', ''Jest'')"
    and f1: "findMarker (render (plain (twoSpanTexts ! 1))) = Some (''@@BOLD-b2@@AWS@@BOLD-b2-END@@'', ''AWS'')"
    and f2: "findMarker (render (plain (twoSpanTexts ! 2))) = None"
    and m0: "markerSpans (render (plain twoSpans)) = 2"
    and m1: "markerSpans (render (plain (twoSpanTexts ! 1))) = 1"
    and m2: "markerSpans (render (plain (twoSpanTexts ! 2))) = 0"
    and r0: "map fst (replaceAll ''@@BOLD-a1@@Jest@@BOLD-a1-END@@'' ''Jest'' (plain twoSpans)) = twoSpanTexts ! 1"
    and r1: "map fst (replaceAll ''@@BOLD-b2@@AWS@@BOLD-b2-END@@'' ''AWS'' (plain (twoSpanTexts ! 1))) = twoSpanTexts ! 2"
    and t: "twoSpanTexts = [twoSpans, twoSpanTexts ! 1, twoSpanTexts ! 2]"
    by code_simp+
  from a t have "map fst s = twoSpans \<or> map fst s = twoSpanTexts ! 1 \<or> map fst s = twoSpanTexts ! 2"
    by (metis empty_iff empty_set set_ConsD)
  then have "map fst (replaceAll e p s) \<in> set twoSpanTexts \<and>
      markerSpans (render (replaceAll e p s)) < markerSpans (render s)"
  proof (elim disjE)
    assume s0: "map fst s = twoSpans"
    with fm cong(1) f0 have ep: "e = ''@@BOLD-a1@@Jest@@BOLD-a1-END@@''" "p = ''Jest''" by simp_all
    from cong(3) s0 ep r0 have x: "map fst (replaceAll e p s) = twoSpanTexts ! 1" by simp
    have "markerSpans (render (replaceAll e p s)) = markerSpans (render (plain (twoSpanTexts ! 1)))"
      by (rule markerSpans_render_cong) (simp only: x map_fst_plain)
    with m1 cong(2) s0 m0 x t show ?thesis by (metis list.set_intros(1,2) one_less_numeral_iff semiring_norm(76))
  next
    assume s1: "map fst s = twoSpanTexts ! 1"
    with fm cong(1) f1 have ep: "e = ''@@BOLD-b2@@AWS@@BOLD-b2-END@@''" "p = ''AWS''" by simp_all
    from cong(3) s1 ep r1 have x: "map fst (replaceAll e p s) = twoSpanTexts ! 2" by simp
    have "markerSpans (render (replaceAll e p s)) = markerSpans (render (plain (twoSpanTexts ! 2)))"
      by (rule markerSpans_render_cong) (simp only: x map_fst_plain)
    with m2 cong(2) s1 m1 x t show ?thesis by (metis list.set_intros(1,2) zero_less_one)
  next
    assume s2: "map fst s = twoSpanTexts ! 2"
    with fm cong(1) f2 show ?thesis by simp
  qed
  with ap show "\<exists>s'. documents_batchUpdate memoryStore [ReplaceAllText e p] s = Some s' \<and>
      map fst s' \<in> set twoSpanTexts \<and>
      markerSpans (documents_get memoryStore s') < markerSpans (documents_get memoryStore s)"
    by (simp add: memoryStore_def)
next
  fix s reqs s'
  assume a: "map fst s \<in> set twoSpanTexts \<and> list_all isStyleRequest reqs \<and>
      documents_batchUpdate memoryStore reqs s = Some s'"
  then have "applyBatch reqs s = Some s'" by (simp add: memoryStore_def)
  from applyBatch_style_text [OF _ this] a have eq: "map fst s' = map fst s" by simp
  with a show "map fst s' \<in> set twoSpanTexts" by simp
  from markerSpans_render_cong [OF eq]
  show "markerSpans (documents_get memoryStore s') \<le> markerSpans (documents_get memoryStore s)"
    by (simp add: memoryStore_def)
qed

text \<open>
  The theorem on the reference store, at a line with two marker spans: two passes, and
  no marker span at the end.
\<close>

theorem styler_pass_bound_witness:
  "storeContract memoryStore (\<lambda>s. map fst s \<in> set twoSpanTexts) \<and>
   markerSpans (documents_get memoryStore (plain twoSpans)) = 2 \<and>
   (\<exists>r'. applyBoldMarkers memoryStore (start (plain twoSpans)) = Inr r' \<and>
      passesIn (trace r') - passesIn (trace (start (plain twoSpans))) \<le> 2 \<and>
      findMarker (documents_get memoryStore (store r')) = None)"
proof -
  have st: "store (start (plain twoSpans)) = plain twoSpans" by (simp add: start_def)
  have "map fst (plain twoSpans) \<in> set twoSpanTexts"
    unfolding map_fst_plain twoSpanTexts_def by simp
  then have i: "map fst (store (start (plain twoSpans))) \<in> set twoSpanTexts"
    unfolding st .
  have "markerSpans (render (plain twoSpans)) = 2" by code_simp
  then have m: "markerSpans (documents_get memoryStore (plain twoSpans)) = 2"
    by (simp add: memoryStore_def)
  from styler_pass_bound [OF twoSpans_contract i, THEN conjunct1] obtain r' where
    res: "applyBoldMarkers memoryStore (start (plain twoSpans)) = Inr r'"
    and le: "passesIn (trace r') - passesIn (trace (start (plain twoSpans))) \<le>
       markerSpans (documents_get memoryStore (store (start (plain twoSpans))))"
    and fin: "passesIn (trace r') - passesIn (trace (start (plain twoSpans))) < 50 \<longrightarrow>
       findMarker (documents_get memoryStore (store r')) = None" by blast
  from le have le2: "passesIn (trace r') - passesIn (trace (start (plain twoSpans))) \<le> 2"
    unfolding st m .
  then have "passesIn (trace r') - passesIn (trace (start (plain twoSpans))) < 50" by arith
  with fin have "findMarker (documents_get memoryStore (store r')) = None" by blast
  with res le2 twoSpans_contract m show ?thesis by blast
qed

text \<open>
  Claim C5 as stated fails on the reference store. The first line holds one marker span
  and the styler makes two passes: the replacement of the span leaves its payload next
  to the text after it, and the two make a new span. The second line holds two spans
  and the styler makes one pass: the replacement removes every occurrence of the span.
\<close>

theorem styler_passes_differ_from_spans:
  "markerSpans (documents_get memoryStore (plain splicedSpan)) = 1 \<and>
   applyBoldMarkers memoryStore (start (plain splicedSpan)) =
     Inr \<lparr>store = [(CHR ''x'', True), (CHR 0x0A, False)],
          trace = [Sent [ReplaceAllText ''@@BOLD-a@@@@BOL@@BOLD-a-END@@'' ''@@BOL''],
                   Sent [UpdateTextStyle 1 6, UpdateTextStyle 12 17],
                   Sent [ReplaceAllText ''@@BOLD-b@@x@@BOLD-b-END@@'' ''x''],
                   Sent [UpdateTextStyle 1 2]]\<rparr> \<and>
   passesIn [Sent [ReplaceAllText ''@@BOLD-a@@@@BOL@@BOLD-a-END@@'' ''@@BOL''],
             Sent [UpdateTextStyle 1 6, UpdateTextStyle 12 17],
             Sent [ReplaceAllText ''@@BOLD-b@@x@@BOLD-b-END@@'' ''x''],
             Sent [UpdateTextStyle 1 2]] = 2 \<and>
   markerSpans (documents_get memoryStore (plain twinSpans)) = 2 \<and>
   applyBoldMarkers memoryStore (start (plain twinSpans)) =
     Inr \<lparr>store = [(CHR ''x'', True), (CHR '' '', False), (CHR ''x'', True), (CHR 0x0A, False)],
          trace = [Sent [ReplaceAllText ''@@BOLD-a@@x@@BOLD-a-END@@'' ''x''],
                   Sent [UpdateTextStyle 1 2, UpdateTextStyle 3 4]]\<rparr> \<and>
   passesIn [Sent [ReplaceAllText ''@@BOLD-a@@x@@BOLD-a-END@@'' ''x''],
             Sent [UpdateTextStyle 1 2, UpdateTextStyle 3 4]] = 1"
  by code_simp

text \<open>
  Claim C4, amended. On a store that keeps the contract and a document with at most 50
  marker spans: the styler returns, and no block of the last snapshot has a marker span
  in its text. On every store, for a pass that finds the span \<open>e\<close> with payload \<open>p\<close>: the
  pass starts with the replacement of the span by its payload; when the snapshot read
  after it has no content the loop ends; otherwise the pass sends the style requests for
  the payload in that snapshot in chunks of 10, each chunk inside \<^verbatim>\<open>try\<close>, none at all for
  a payload that trims to the empty string, and the loop goes on with the next pass.
  Every style request styles one occurrence of the payload inside one text run that has
  a start offset; and every occurrence of the payload inside such a run is the requested
  one or overlaps a requested one to its left. The requests come in the order of the
  blocks and of the text runs of a block; those of one run are, from left to right, the
  first occurrence of the payload in the run and then, each time, the first occurrence
  at or after the end of the one before.
\<close>

theorem styler_strips_and_requests_style:
  assumes c: "storeContract api I" and i: "I (store r)"
    and m: "markerSpans (documents_get api (store r)) \<le> 50"
  shows "(\<exists>r'. applyBoldMarkers api r = Inr r' \<and>
            (\<forall>t \<in> set (docTexts (documents_get api (store r'))). \<not> hasMarkerSpan t)) \<and>
         (\<forall>n doc r0 r1 e p. n < 50 \<and> findMarker doc = Some (e, p) \<and>
              applyBoldPasses api n doc r0 = Inr r1 \<longrightarrow>
            (\<exists>ra evs tail. sendBatch api [ReplaceAllText e p] r0 = Inr ra \<and>
               trace r1 = trace r0 @ Sent [ReplaceAllText e p] # evs @ tail \<and>
               (\<forall>content1. body_content (documents_get api (store ra)) = Some content1 \<and>
                    trim p \<noteq> [] \<longrightarrow>
                  concat (map requestsOf evs) = boldRequestsFor content1 p))) \<and>
         (\<forall>n doc r0 r1 e p. n < 50 \<and> findMarker doc = Some (e, p) \<and>
              applyBoldPasses api n doc r0 = Inr r1 \<longrightarrow>
            (\<exists>ra. sendBatch api [ReplaceAllText e p] r0 = Inr ra \<and>
               (case body_content (documents_get api (store ra)) of
                  None \<Rightarrow> r1 = ra
                | Some content1 \<Rightarrow>
                    (let reqs = (if trim p = [] then [] else boldRequestsFor content1 p);
                         r2 = foldl (\<lambda>r c. tryBatch api c r) ra
                                (map (\<lambda>k. take 10 (drop (10 * k) reqs))
                                   [0..<(length reqs + 9) div 10])
                     in applyBoldPasses api (Suc n) (documents_get api (store r2)) r2 = Inr r1)))) \<and>
         (\<forall>content t req. req \<in> set (boldRequestsFor content t) \<longrightarrow>
            (\<exists>base cnt pos. (base, cnt) \<in> set (styledRuns content) \<and> occursAt t cnt pos \<and>
               req = UpdateTextStyle (base + pos) (base + pos + length t))) \<and>
         (\<forall>content t base cnt q. t \<noteq> [] \<and> (base, cnt) \<in> set (styledRuns content) \<and>
              occursAt t cnt q \<longrightarrow>
            (\<exists>pos. pos \<le> q \<and> q < pos + length t \<and>
               UpdateTextStyle (base + pos) (base + pos + length t) \<in> set (boldRequestsFor content t))) \<and>
         (\<forall>content t. t \<noteq> [] \<longrightarrow>
            boldRequestsFor content t =
              concat (map (\<lambda>(base, cnt). boldRangesFrom cnt t base 0) (styledRuns content))) \<and>
         (\<forall>cnt t base. t \<noteq> [] \<longrightarrow>
            (\<exists>ps. boldRangesFrom cnt t base 0 =
                    map (\<lambda>pos. UpdateTextStyle (base + pos) (base + pos + length t)) ps \<and>
                  (\<forall>k < length ps. occursAt t cnt (ps ! k) \<and>
                     (\<forall>q. (if k = 0 then 0 else ps ! (k - 1) + length t) \<le> q \<and> q < ps ! k \<longrightarrow>
                        \<not> occursAt t cnt q)) \<and>
                  (\<forall>q. (if ps = [] then 0 else last ps + length t) \<le> q \<longrightarrow>
                     \<not> occursAt t cnt q)))"
proof (intro conjI allI impI)
  from applyBoldMarkers_contract [OF c i] obtain r' where
    res: "applyBoldMarkers api r = Inr r'"
    and a: "passesIn (trace r) \<le> passesIn (trace r')"
    and b: "passesIn (trace r') + markerSpans (documents_get api (store r')) \<le>
        passesIn (trace r) + markerSpans (documents_get api (store r))"
    and f: "passesIn (trace r') < passesIn (trace r) + 50 \<longrightarrow>
        findMarker (documents_get api (store r')) = None" by blast
  have "findMarker (documents_get api (store r')) = None"
  proof (cases "passesIn (trace r') < passesIn (trace r) + 50")
    case True
    with f show ?thesis by blast
  next
    case False
    with b m have "markerSpans (documents_get api (store r')) = 0" by arith
    then show ?thesis by (rule markerSpans_zero)
  qed
  then have "\<forall>t \<in> set (docTexts (documents_get api (store r'))). \<not> hasMarkerSpan t"
    by (simp only: findMarker_None_iff)
  with res show "\<exists>r'. applyBoldMarkers api r = Inr r' \<and>
      (\<forall>t \<in> set (docTexts (documents_get api (store r'))). \<not> hasMarkerSpan t)" by blast
next
  fix n doc r0 r1 e p
  assume "n < 50 \<and> findMarker doc = Some (e, p) \<and> applyBoldPasses api n doc r0 = Inr r1"
  then have "n < 50" "findMarker doc = Some (e, p)" "applyBoldPasses api n doc r0 = Inr r1"
    by simp_all
  then show "\<exists>ra evs tail. sendBatch api [ReplaceAllText e p] r0 = Inr ra \<and>
      trace r1 = trace r0 @ Sent [ReplaceAllText e p] # evs @ tail \<and>
      (\<forall>content1. body_content (documents_get api (store ra)) = Some content1 \<and> trim p \<noteq> [] \<longrightarrow>
         concat (map requestsOf evs) = boldRequestsFor content1 p)"
    by (rule applyBoldPasses_first)
next
  fix n doc r0 r1 e p
  assume "n < 50 \<and> findMarker doc = Some (e, p) \<and> applyBoldPasses api n doc r0 = Inr r1"
  then have "n < 50" "findMarker doc = Some (e, p)" "applyBoldPasses api n doc r0 = Inr r1"
    by simp_all
  then show "\<exists>ra. sendBatch api [ReplaceAllText e p] r0 = Inr ra \<and>
      (case body_content (documents_get api (store ra)) of
         None \<Rightarrow> r1 = ra
       | Some content1 \<Rightarrow>
           (let reqs = (if trim p = [] then [] else boldRequestsFor content1 p);
                r2 = foldl (\<lambda>r c. tryBatch api c r) ra
                       (map (\<lambda>k. take 10 (drop (10 * k) reqs))
                          [0..<(length reqs + 9) div 10])
            in applyBoldPasses api (Suc n) (documents_get api (store r2)) r2 = Inr r1))"
    by (rule applyBoldPasses_pass)
next
  fix content t req
  assume "req \<in> set (boldRequestsFor content t)"
  then show "\<exists>base cnt pos. (base, cnt) \<in> set (styledRuns content) \<and> occursAt t cnt pos \<and>
      req = UpdateTextStyle (base + pos) (base + pos + length t)"
    by (rule boldRequestsFor_sound)
next
  fix content t base cnt q
  assume "t \<noteq> [] \<and> (base, cnt) \<in> set (styledRuns content) \<and> occursAt t cnt q"
  then have "t \<noteq> []" "(base, cnt) \<in> set (styledRuns content)" "occursAt t cnt q" by simp_all
  then show "\<exists>pos. pos \<le> q \<and> q < pos + length t \<and>
      UpdateTextStyle (base + pos) (base + pos + length t) \<in> set (boldRequestsFor content t)"
    by (rule boldRequestsFor_covers)
next
  fix content t
  assume "t \<noteq> ([] :: string)"
  then show "boldRequestsFor content t =
      concat (map (\<lambda>(base, cnt). boldRangesFrom cnt t base 0) (styledRuns content))"
    by (rule boldRequestsFor_runs)
next
  fix cnt t :: string and base :: nat
  assume "t \<noteq> []"
  then show "\<exists>ps. boldRangesFrom cnt t base 0 =
        map (\<lambda>pos. UpdateTextStyle (base + pos) (base + pos + length t)) ps \<and>
      (\<forall>k < length ps. occursAt t cnt (ps ! k) \<and>
         (\<forall>q. (if k = 0 then 0 else ps ! (k - 1) + length t) \<le> q \<and> q < ps ! k \<longrightarrow>
            \<not> occursAt t cnt q)) \<and>
      (\<forall>q. (if ps = [] then 0 else last ps + length t) \<le> q \<longrightarrow> \<not> occursAt t cnt q)"
    by (rule boldRangesFrom_greedy)
qed

text \<open>
  The theorem on the reference store, at a line with two marker spans: the styler leaves
  the text without a span, with both payloads in bold.
\<close>

theorem styler_strips_and_requests_style_witness:
  "storeContract memoryStore (\<lambda>s. map fst s \<in> set twoSpanTexts) \<and>
   markerSpans (documents_get memoryStore (store (start (plain twoSpans)))) \<le> 50 \<and>
   applyBoldMarkers memoryStore (start (plain twoSpans)) = Inr twoSpansStyled \<and>
   findMarker (documents_get memoryStore (store twoSpansStyled)) = None \<and>
   map fst (store twoSpansStyled) = ''Used Jest and AWS\<newline>'' \<and>
   map fst (filter snd (store twoSpansStyled)) = ''JestAWS''"
proof -
  have st: "store (start (plain twoSpans)) = plain twoSpans" by (simp add: start_def)
  have "map fst (plain twoSpans) \<in> set twoSpanTexts"
    unfolding map_fst_plain twoSpanTexts_def by simp
  then have i: "map fst (store (start (plain twoSpans))) \<in> set twoSpanTexts"
    unfolding st .
  have "markerSpans (render (plain twoSpans)) = 2" by code_simp
  then have "markerSpans (documents_get memoryStore (plain twoSpans)) \<le> 50"
    by (simp add: memoryStore_def)
  then have m: "markerSpans (documents_get memoryStore (store (start (plain twoSpans)))) \<le> 50"
    unfolding st .
  from styler_strips_and_requests_style [OF twoSpans_contract i m, THEN conjunct1] obtain r' where
    res: "applyBoldMarkers memoryStore (start (plain twoSpans)) = Inr r'"
    and no: "\<forall>t \<in> set (docTexts (documents_get memoryStore (store r'))). \<not> hasMarkerSpan t"
    by blast
  from no have fm: "findMarker (documents_get memoryStore (store r')) = None"
    by (simp only: findMarker_None_iff)
  have ev: "applyBoldMarkers memoryStore (start (plain twoSpans)) = Inr twoSpansStyled"
    by code_simp
  from res [unfolded ev] have r': "twoSpansStyled = r'" by (simp only: sum.inject)
  from fm have fm': "findMarker (documents_get memoryStore (store twoSpansStyled)) = None"
    unfolding r' .
  have t1: "map fst (store twoSpansStyled) = ''Used Jest and AWS\<newline>''" by code_simp
  have t2: "map fst (filter snd (store twoSpansStyled)) = ''JestAWS''" by code_simp
  from twoSpans_contract m ev fm' t1 t2 show ?thesis by (intro conjI)
qed

text \<open>
  Claim C4 as stated fails for a payload of white space: the span is replaced by its
  payload and the pass ends there, so the payload stays as it was, not bold, and no
  style request is sent.
\<close>

theorem styler_leaves_blank_payload_plain:
  "hasMarkerSpan blankSpan \<and>
   matchMarker blankSpan = Some (''@@BOLD-a1@@ @@BOLD-a1-END@@'', '' '') \<and>
   applyBoldMarkers memoryStore (start (plain blankSpan)) =
     Inr \<lparr>store = plain ''Stack: Jest\<newline>'',
          trace = [Sent [ReplaceAllText ''@@BOLD-a1@@ @@BOLD-a1-END@@'' '' '']]\<rparr>"
proof -
  have a: "matchMarker blankSpan = Some (''@@BOLD-a1@@ @@BOLD-a1-END@@'', '' '')" by code_simp
  then have b: "hasMarkerSpan blankSpan" by (rule matchMarker_sound)
  have "applyBoldMarkers memoryStore (start (plain blankSpan)) =
     Inr \<lparr>store = plain ''Stack: Jest\<newline>'',
          trace = [Sent [ReplaceAllText ''@@BOLD-a1@@ @@BOLD-a1-END@@'' '' '']]\<rparr>" by code_simp
  with a b show ?thesis by blast
qed

text \<open>
  The ceiling at work: entered with the pass count 49, the loop makes one pass on the line
  with two marker spans and ends, and the second span is still in the text.
\<close>

lemma styler_last_pass:
  "applyBoldPasses memoryStore 49 (render (plain twoSpans)) (start (plain twoSpans)) =
     Inr \<lparr>store = plain ''Used '' @ map (\<lambda>c. (c, True)) ''Jest'' @
                  plain '' and @@BOLD-b2@@AWS@@BOLD-b2-END@@\<newline>'',
          trace = [Sent [ReplaceAllText ''@@BOLD-a1@@Jest@@BOLD-a1-END@@'' ''Jest''],
                   Sent [UpdateTextStyle 6 10]]\<rparr> \<and>
   findMarker (render (plain ''Used '' @ map (\<lambda>c. (c, True)) ''Jest'' @
                  plain '' and @@BOLD-b2@@AWS@@BOLD-b2-END@@\<newline>'')) =
     Some (''@@BOLD-b2@@AWS@@BOLD-b2-END@@'', ''AWS'')"
  by code_simp

end
